theory Spec2Isabelle
  imports Complex_Main "HOL-Library.Sublist" "HOL-Library.Log_Nat"
begin

section \<open>The client synchronization protocol (clientSync.ts)\<close>

text \<open>
  A shallow embedding of the class \<open>ClientSync\<close>. The fields of the object, the queue of
  the client and what the object does to the outside (messages handed to the connection,
  console output, promises settled) are one state record that every method takes and
  returns. What the object reads but does not own (the rule table, the session cache, the
  client's flags) is the record \<open>Client\<close>.
\<close>

subsection \<open>Stages, handlings and rules\<close>

datatype SynchronizationStage =
    Always
  | LoadAssets
  | CreateActors
  | CreateAnimations
  | SyncAnimations
  | SetBehaviors
  | Never

text \<open>The four values that the switch in \<open>sendMessage\<close> distinguishes.\<close>

datatype MessageHandling = Allow | Queue | Ignore | Error

text \<open>
  The part \<open>rule.synchronization\<close> of a rule, with the four fields that
  \<open>handlingForMessage\<close> reads.
\<close>

record Rule =
  stage :: SynchronizationStage
  before :: MessageHandling
  during :: MessageHandling
  after :: MessageHandling

subsection \<open>Payloads and messages\<close>

text \<open>
  An \<open>interpolate-actor\<close> payload. The code reads and writes \<open>enabled\<close> only; the
  other fields are copied as they are.
\<close>

record InterpolateActor =
  interpolatedActorId :: string
  animationName :: string
  enabled :: bool

text \<open>
  JavaScript numbers are IEEE 754 doubles. A number is a finite value (a rational that a
  double can hold), an infinity or NaN. The two zeros are one value here: the code never
  divides by a variable, so their sign is never observed.
\<close>

datatype JSNumber = Finite rat | PosInfinity | NegInfinity | NaN

text \<open>An entry of \<open>payload.animationStates\<close>; the code touches \<open>state.time\<close>.\<close>

record AnimationStateOptions =
  time :: JSNumber

record AnimationState =
  animationId :: string
  state :: AnimationStateOptions

text \<open>
  A payload is known to this protocol by its discriminant \<open>type\<close>, which a
  \<open>Partial\<close> payload may lack. The payloads that the protocol builds or opens have a
  constructor of their own.
\<close>

datatype Payload =
    SyncComplete
  | SyncAnimationsRequest
  | SyncAnimationsReply "AnimationState list"
  | SetBehavior string "string option"
  | Interpolate InterpolateActor
  | CreateActorCommon "string option" string
  | OtherPayload "string option"

fun payload_type :: "Payload \<Rightarrow> string option" where
  "payload_type SyncComplete = Some ''sync-complete''"
| "payload_type SyncAnimationsRequest = Some ''sync-animations''"
| "payload_type (SyncAnimationsReply _) = Some ''sync-animations''"
| "payload_type (SetBehavior _ _) = Some ''set-behavior''"
| "payload_type (Interpolate _) = Some ''interpolate-actor''"
| "payload_type (CreateActorCommon t _) = t"
| "payload_type (OtherPayload t) = t"

record Message =
  payload :: Payload

text \<open>JavaScript truthiness of an optional string: present and not empty.\<close>

fun truthy :: "string option \<Rightarrow> bool" where
  "truthy None = False"
| "truthy (Some s) = (s \<noteq> [])"

subsection \<open>The session cache\<close>

text \<open>The types \<open>CreateActor\<close>, \<open>CreateAnimation\<close> and \<open>SyncActor\<close>.\<close>

record CreateActor =
  message :: Message

record CreateAnimation =
  animationMessage :: Message
  animationEnabled :: bool

text \<open>
  The code takes a \<open>Partial<SyncActor>\<close>: each field may be absent. An active
  interpolation is an object of the cache, held by its address in the store
  (see \<open>objects\<close> below), since the protocol must not write to it.
\<close>

record SyncActor =
  actorId :: "string option"
  created :: "CreateActor option"
  createdAnimations :: "CreateAnimation list option"
  activeInterpolations :: "nat list option"
  behavior :: "string option"

text \<open>
  Modelled from the spec: the session's \<open>rootActors\<close> and \<open>childrenOf\<close> (the class
  Session is not among the sources) are "the cached actor tree": a root actor is a
  node, and \<open>childrenOf\<close> of its id gives the nodes below it.
\<close>

datatype ActorNode = ActorNode SyncActor "ActorNode list"

fun nodeActor :: "ActorNode \<Rightarrow> SyncActor" where
  "nodeActor (ActorNode a cs) = a"

fun childrenOf :: "ActorNode \<Rightarrow> ActorNode list" where
  "childrenOf (ActorNode a cs) = cs"

record Session =
  peerAuthoritative :: bool
  assets :: "Message list"
  assetUpdates :: "Payload list"
  rootActors :: "ActorNode list"
  actors :: "SyncActor list"
  authoritativeOrder :: nat
  authoritativeLatencyMs :: JSNumber

text \<open>
  What the protocol reads of its client: the rule table \<open>Rules\<close> with \<open>MissingRule\<close>
  (the table is not among the sources, so it is a parameter), the session, the client's
  join order, its \<open>authoritative\<close> flag and the latency of its connection.
\<close>

record Client =
  Rules :: "string \<Rightarrow> Rule option"
  MissingRule :: Rule
  session :: Session
  order :: nat
  authoritative :: bool
  latencyMs :: JSNumber

subsection \<open>The state of the protocol and what it does to the outside\<close>

text \<open>
  An \<open>ExportedPromise\<close> travels with a message that expects a reply. It is either a
  promise of the caller of \<open>sendMessage\<close>, known by a number, or the pair of callbacks
  that \<open>sendAndExpectResponse\<close> builds; the latter records the call of
  \<open>createActorRecursive\<close> that awaits it, if one does.
\<close>

datatype ExportedPromise =
    CallerPromise nat
  | ResponsePromise "ActorNode option"

datatype ConsoleError =
    InvalidMessage "string option" "SynchronizationStage list" "SynchronizationStage list"
  | NoHandler SynchronizationStage

text \<open>
  Everything observable, in the order in which it happens. \<open>Sent n m p\<close> is the message
  \<open>m\<close> handed to the client's connection with its reply continuation \<open>p\<close>; \<open>n\<close> is the
  number under which its reply is matched. \<open>StageExecuted\<close> and \<open>QueueDrained\<close> mark the calls of \<open>executeStage\<close> and
  \<open>sendQueuedMessages\<close>. \<open>CallerResolved k v\<close> is the promise \<open>k\<close> of a caller resolved
  with the value \<open>v\<close> (\<open>None\<close>: with no value).
\<close>

datatype Event =
    StageBegun SynchronizationStage
  | StageCompleted SynchronizationStage
  | StageExecuted SynchronizationStage
  | QueueDrained
  | Sent nat Message "ExportedPromise option"
  | Received nat Message
  | SessionSent Message
  | AuthoritativeSent Payload
  | Console ConsoleError
  | CallerResolved nat "Payload option"
  | CallerRejected nat
  | ProtocolResolved
  | ProtocolRejected

datatype RequestState = NotRequested | Requested | RequestResolved | RequestRejected

record State =
  inProgressStages :: "SynchronizationStage list"
  completedStages :: "SynchronizationStage list"
  queuedMessages :: "(Message \<times> ExportedPromise option) list"
  promises :: "(nat \<times> ExportedPromise) list"
  nextId :: nat
  failedReplies :: "nat list"
  stalled :: bool
  syncAnimationsRequest :: RequestState
  objects :: "InterpolateActor list"
  trace :: "Event list"

definition emit :: "Event \<Rightarrow> State \<Rightarrow> State" where
  "emit e st = st\<lparr>trace := trace st @ [e]\<rparr>"

text \<open>
  The steps of the driver \<open>run\<close> in a trace: a stage begun, executed and completed, the
  queue drained, the protocol resolved or rejected.
\<close>

datatype DriverStep =
    Begin SynchronizationStage
  | Execute SynchronizationStage
  | Complete SynchronizationStage
  | Drain
  | Resolve
  | Reject

fun driverStep :: "Event \<Rightarrow> DriverStep list" where
  "driverStep (StageBegun s) = [Begin s]"
| "driverStep (StageExecuted s) = [Execute s]"
| "driverStep (StageCompleted s) = [Complete s]"
| "driverStep QueueDrained = [Drain]"
| "driverStep ProtocolResolved = [Resolve]"
| "driverStep ProtocolRejected = [Reject]"
| "driverStep e = []"

definition driverSteps :: "Event list \<Rightarrow> DriverStep list" where
  "driverSteps tr = concat (map driverStep tr)"

subsection \<open>The stage machine\<close>

definition isStageComplete :: "State \<Rightarrow> SynchronizationStage \<Rightarrow> bool" where
  "isStageComplete st s = (s \<in> set (completedStages st))"

definition isStageInProgress :: "State \<Rightarrow> SynchronizationStage \<Rightarrow> bool" where
  "isStageInProgress st s = (s \<in> set (inProgressStages st))"

definition beginStage :: "SynchronizationStage \<Rightarrow> State \<Rightarrow> State" where
  "beginStage s st =
     (emit (StageBegun s) st)\<lparr>inProgressStages := inProgressStages st @ [s]\<rparr>"

definition completeStage :: "SynchronizationStage \<Rightarrow> State \<Rightarrow> State" where
  "completeStage s st =
     (emit (StageCompleted s) st)
       \<lparr>inProgressStages := filter (\<lambda>item. item \<noteq> s) (inProgressStages st),
        completedStages := completedStages st @ [s]\<rparr>"

text \<open>The order of synchronization stages (the field \<open>sequence\<close>).\<close>

definition sequence :: "SynchronizationStage list" where
  "sequence = [LoadAssets, CreateActors, SetBehaviors, CreateAnimations, SyncAnimations]"

subsection \<open>The message router\<close>

text \<open>\<open>Rules[message.payload.type] || MissingRule\<close>.\<close>

definition ruleFor :: "Client \<Rightarrow> Message \<Rightarrow> Rule" where
  "ruleFor c m =
     (case payload_type (payload m) of
        None \<Rightarrow> MissingRule c
      | Some t \<Rightarrow> (case Rules c t of None \<Rightarrow> MissingRule c | Some r \<Rightarrow> r))"

definition handlingForMessage :: "Client \<Rightarrow> Message \<Rightarrow> State \<Rightarrow> MessageHandling" where
  "handlingForMessage c m st =
     (let rule = ruleFor c m;
          handling = before rule
      in if isStageComplete st (stage rule) then after rule
         else if isStageInProgress st (stage rule) then during rule
         else handling)"

text \<open>
  Modelled from the spec: \<open>Protocol.sendMessage\<close> of the base class (not among the
  sources), which the code calls as \<open>super.sendMessage\<close>, is the transport's
  \<open>send(message, reply?)\<close>: the message goes to the connection, and its reply
  continuation, if any, is kept until the reply arrives. \<open>super.sendPayload\<close>, with which
  the stage drivers forward a payload, is "the parent class's raw send (bypassing the
  router)". The one call \<open>this.sendPayload\<close>, in \<open>run\<close>, is the routed \<open>send\<close> of the
  driver's algorithm: it goes through \<open>sendMessage\<close> of this class.
\<close>

definition Protocol_sendMessage :: "Message \<Rightarrow> ExportedPromise option \<Rightarrow> State \<Rightarrow> State" where
  "Protocol_sendMessage m p st =
     (emit (Sent (nextId st) m p) st)
       \<lparr>promises := (case p of None \<Rightarrow> promises st | Some q \<Rightarrow> promises st @ [(nextId st, q)]),
        nextId := Suc (nextId st)\<rparr>"

definition Protocol_sendPayload :: "Payload \<Rightarrow> State \<Rightarrow> State" where
  "Protocol_sendPayload pl st = Protocol_sendMessage \<lparr>payload = pl\<rparr> None st"

text \<open>
  Modelled from the spec: \<open>Client.queueMessage\<close> (the class Client is not among the
  sources) appends \<open>(message, reply)\<close> to the peer's outbound queue.
\<close>

definition queueMessage :: "Message \<Rightarrow> ExportedPromise option \<Rightarrow> State \<Rightarrow> State" where
  "queueMessage m p st = st\<lparr>queuedMessages := queuedMessages st @ [(m, p)]\<rparr>"

definition sendMessage :: "Client \<Rightarrow> Message \<Rightarrow> ExportedPromise option \<Rightarrow> State \<Rightarrow> State" where
  "sendMessage c m p st =
     (case handlingForMessage c m st of
        Allow \<Rightarrow> Protocol_sendMessage m p st
      | Queue \<Rightarrow> queueMessage m p st
      | Ignore \<Rightarrow> st
      | Error \<Rightarrow>
          emit (Console (InvalidMessage (payload_type (payload m))
                  (inProgressStages st) (completedStages st))) st)"

subsection \<open>Numbers\<close>

text \<open>
  Rounding of a real result to the nearest double, ties to even: 53 bits of mantissa,
  exponents from \<open>-1022\<close> (below it the spacing stays \<open>2^-1074\<close>) to \<open>1023\<close> (a result
  that rounds to \<open>2^1024\<close> or more is an infinity).
\<close>

definition pow2 :: "int \<Rightarrow> rat" where
  "pow2 k = (if 0 \<le> k then 2 ^ nat k else 1 / 2 ^ nat (- k))"

text \<open>The exponent \<open>e\<close> of a positive rational: \<open>2^e \<le> x < 2^(e+1)\<close>.\<close>

definition exponentOf :: "rat \<Rightarrow> int" where
  "exponentOf x =
     (if 1 \<le> x then int (floorlog 2 (nat \<lfloor>x\<rfloor>)) - 1
      else - int (floorlog 2 (nat (\<lceil>1 / x\<rceil> - 1))))"

definition roundHalfEven :: "rat \<Rightarrow> int" where
  "roundHalfEven y =
     (let n = \<lfloor>y\<rfloor>; r = y - of_int n
      in if r < 1 / 2 then n
         else if 1 / 2 < r then n + 1
         else if even n then n else n + 1)"

definition toDouble :: "rat \<Rightarrow> JSNumber" where
  "toDouble x =
     (if x = 0 then Finite 0
      else
        let quantum = pow2 (max (exponentOf \<bar>x\<bar>) (- 1022) - 52);
            r = of_int (roundHalfEven (x / quantum)) * quantum
        in if pow2 1024 \<le> \<bar>r\<bar> then (if 0 < x then PosInfinity else NegInfinity)
           else Finite r)"

text \<open>The operator \<open>+\<close> on numbers.\<close>

fun js_add :: "JSNumber \<Rightarrow> JSNumber \<Rightarrow> JSNumber" where
  "js_add NaN _ = NaN"
| "js_add _ NaN = NaN"
| "js_add PosInfinity NegInfinity = NaN"
| "js_add NegInfinity PosInfinity = NaN"
| "js_add PosInfinity _ = PosInfinity"
| "js_add _ PosInfinity = PosInfinity"
| "js_add NegInfinity _ = NegInfinity"
| "js_add _ NegInfinity = NegInfinity"
| "js_add (Finite a) (Finite b) = toDouble (a + b)"

text \<open>
  The operator \<open>/\<close> with a positive literal on the right, which is how the code uses
  it (\<open>x / 2000\<close>).
\<close>

fun js_div_by :: "JSNumber \<Rightarrow> nat \<Rightarrow> JSNumber" where
  "js_div_by NaN d = NaN"
| "js_div_by PosInfinity d = PosInfinity"
| "js_div_by NegInfinity d = NegInfinity"
| "js_div_by (Finite a) d = toDouble (a / of_nat d)"

subsection \<open>Sending cached state\<close>

text \<open>
  \<open>sendAndExpectResponse\<close> hands the message to the connection with its pair of
  callbacks and returns a promise, known by the number of the message. What the
  callbacks do when the reply arrives is \<open>responseArrived\<close> below.
\<close>

definition sendAndExpectResponse ::
  "Message \<Rightarrow> ActorNode option \<Rightarrow> State \<Rightarrow> nat \<times> State" where
  "sendAndExpectResponse m awaiting st =
     (nextId st, Protocol_sendMessage m (Some (ResponsePromise awaiting)) st)"

text \<open>\<open>xs.map(f)\<close> where \<open>f\<close> changes the state and returns a value.\<close>

fun mapState :: "('a \<Rightarrow> State \<Rightarrow> 'b \<times> State) \<Rightarrow> 'a list \<Rightarrow> State \<Rightarrow> 'b list \<times> State" where
  "mapState f [] st = ([], st)"
| "mapState f (x # xs) st =
     (case f x st of (y, st1) \<Rightarrow> (case mapState f xs st1 of (ys, st2) \<Rightarrow> (y # ys, st2)))"

text \<open>
  \<open>createActor\<close> returns the promise of the reply, or \<open>undefined\<close> (here \<open>None\<close>) for an
  actor without a created message or whose created message has no payload type.
\<close>

definition createActor :: "ActorNode \<Rightarrow> State \<Rightarrow> nat option \<times> State" where
  "createActor node st =
     (case created (nodeActor node) of
        None \<Rightarrow> (None, st)
      | Some cr \<Rightarrow>
          if truthy (payload_type (payload (message cr)))
          then (case sendAndExpectResponse (message cr) (Some node) st of (n, st1) \<Rightarrow> (Some n, st1))
          else (None, st))"

text \<open>
  \<open>createActorRecursive\<close> up to its \<open>await\<close>. When \<open>createActor\<close> returned a promise the
  call waits for the reply. When it returned \<open>undefined\<close> the rest of the call is resumed
  in a later microtask: it joins the queue of calls to resume.
\<close>

definition createActorRecursive :: "ActorNode \<Rightarrow> State \<times> ActorNode list \<Rightarrow> State \<times> ActorNode list" where
  "createActorRecursive node sq =
     (case createActor node (fst sq) of
        (Some n, st1) \<Rightarrow> (st1, snd sq)
      | (None, st1) \<Rightarrow> (st1, snd sq @ [node]))"

fun nodeCount :: "ActorNode \<Rightarrow> nat" where
  "nodeCount (ActorNode a cs) = Suc (sum_list (map nodeCount cs))"

text \<open>The guard of \<open>createActor\<close>.\<close>

definition hasCreateMessage :: "ActorNode \<Rightarrow> bool" where
  "hasCreateMessage node =
     (case created (nodeActor node) of
        None \<Rightarrow> False
      | Some cr \<Rightarrow> truthy (payload_type (payload (message cr))))"

lemma createActor_cases:
  "createActor node st =
     (if hasCreateMessage node
      then (Some (nextId st),
            Protocol_sendMessage (message (the (created (nodeActor node))))
              (Some (ResponsePromise (Some node))) st)
      else (None, st))"
  by (simp add: createActor_def hasCreateMessage_def sendAndExpectResponse_def
      split: option.splits)

lemma createActorRecursive_cases:
  "createActorRecursive node (st, q) =
     (if hasCreateMessage node
      then (Protocol_sendMessage (message (the (created (nodeActor node))))
              (Some (ResponsePromise (Some node))) st, q)
      else (st, q @ [node]))"
  by (simp add: createActorRecursive_def createActor_cases)

lemma snd_fold_createActorRecursive:
  "snd (fold createActorRecursive cs (st, q)) = q @ filter (\<lambda>n. \<not> hasCreateMessage n) cs"
  by (induction cs arbitrary: st q) (simp_all add: createActorRecursive_cases)

lemma nodeCount_pos: "0 < nodeCount node"
  by (cases node) simp

lemma nodeCount_filter_le:
  "sum_list (map nodeCount (filter P cs)) \<le> sum_list (map nodeCount cs)"
  by (induction cs) simp_all

text \<open>
  Resuming the calls of \<open>createActorRecursive\<close> that wait in the microtask queue, first
  in first out. A resumed call reads \<open>actor.created.message.payload.actor.id\<close>: without a
  created message this throws inside the async executor, so that the promise of the call
  never settles (\<open>stalled\<close>). Otherwise the call starts \<open>createActorRecursive\<close> for each
  child.
\<close>

function runMicrotasks :: "ActorNode list \<Rightarrow> State \<Rightarrow> State" where
  "runMicrotasks [] st = st"
| "runMicrotasks (node # q) st =
     (case created (nodeActor node) of
        None \<Rightarrow> runMicrotasks q (st\<lparr>stalled := True\<rparr>)
      | Some cr \<Rightarrow>
          (case fold createActorRecursive (childrenOf node) (st, q) of
             (st1, q1) \<Rightarrow> runMicrotasks q1 st1))"
  by pat_completeness auto
termination
proof (relation "measure (\<lambda>(q, st). sum_list (map nodeCount q))", goal_cases)
  case 1
  show ?case by simp
next
  case (2 node q st)
  show ?case by (simp add: nodeCount_pos)
next
  case (3 node q st cr st1 q1)
  have "q1 = snd (fold createActorRecursive (childrenOf node) (st, q))"
    using 3(2) [symmetric] by simp
  then have q1: "q1 = q @ filter (\<lambda>n. \<not> hasCreateMessage n) (childrenOf node)"
    by (simp add: snd_fold_createActorRecursive)
  have "sum_list (map nodeCount (childrenOf node)) < nodeCount node"
    by (cases node) simp
  then show ?case
    using nodeCount_filter_le [of "\<lambda>n. \<not> hasCreateMessage n" "childrenOf node"]
    by (simp add: q1)
qed

subsection \<open>What arrives while the protocol waits\<close>

text \<open>
  The protocol runs on one thread. While \<open>run\<close> waits at an \<open>await\<close>, the event loop
  hands over what arrives: the reply to message \<open>n\<close>, the failure of that reply (its
  promise is rejected), the answer of the authoritative client to the
  \<open>sync-animations\<close> request or its failure, and a message that the application sends
  through this protocol, with the number of the caller's promise if it expects a reply.
\<close>

datatype Incoming =
    ReplyArrives nat Message
  | ReplyFails nat
  | AnimationsArrive "AnimationState list"
  | AnimationsFail
  | AppSends Message "nat option"

text \<open>The \<open>resolve\<close> callback of \<open>sendAndExpectResponse\<close>, up to its call of \<open>resolve\<close>.\<close>

definition responseArrived :: "Client \<Rightarrow> Message \<Rightarrow> State \<Rightarrow> State" where
  "responseArrived c replyMessage st =
     (if authoritative c then emit (SessionSent replyMessage) st else st)"

text \<open>The two statements in the loop of the \<open>resolve\<close> callback of \<open>stage:sync-animations\<close>.\<close>

definition adjustTime :: "Client \<Rightarrow> AnimationState \<Rightarrow> AnimationState" where
  "adjustTime c a =
     (let a1 = a\<lparr>state := (state a)\<lparr>time :=
                 js_add (time (state a)) (js_div_by (authoritativeLatencyMs (session c)) 2000)\<rparr>\<rparr>
      in a1\<lparr>state := (state a1)\<lparr>time :=
                 js_add (time (state a1)) (js_div_by (latencyMs c) 2000)\<rparr>\<rparr>)"

definition animationsArrived :: "Client \<Rightarrow> AnimationState list \<Rightarrow> State \<Rightarrow> State" where
  "animationsArrived c animationStates st =
     (Protocol_sendPayload (SyncAnimationsReply (map (adjustTime c) animationStates)) st)
       \<lparr>syncAnimationsRequest := RequestResolved\<rparr>"

definition forget :: "nat \<Rightarrow> State \<Rightarrow> State" where
  "forget n st = st\<lparr>promises := filter (\<lambda>np. fst np \<noteq> n) (promises st)\<rparr>"

fun deliver :: "Client \<Rightarrow> Incoming \<Rightarrow> State \<Rightarrow> State" where
  "deliver c (ReplyArrives n r) st =
     (case map_of (promises st) n of
        None \<Rightarrow> st
      | Some (CallerPromise k) \<Rightarrow>
          emit (CallerResolved k (Some (payload r))) (emit (Received n r) (forget n st))
      | Some (ResponsePromise awaiting) \<Rightarrow>
          (let st1 = responseArrived c r (emit (Received n r) (forget n st))
           in case awaiting of None \<Rightarrow> st1 | Some node \<Rightarrow> runMicrotasks [node] st1))"
| "deliver c (ReplyFails n) st =
     (case map_of (promises st) n of
        None \<Rightarrow> st
      | Some (CallerPromise k) \<Rightarrow> emit (CallerRejected k) (forget n st)
      | Some (ResponsePromise awaiting) \<Rightarrow>
          (case awaiting of
             None \<Rightarrow> (forget n st)\<lparr>failedReplies := failedReplies st @ [n]\<rparr>
           | Some node \<Rightarrow> (forget n st)\<lparr>stalled := True\<rparr>))"
| "deliver c (AnimationsArrive animationStates) st =
     (if syncAnimationsRequest st = Requested then animationsArrived c animationStates st else st)"
| "deliver c AnimationsFail st =
     (if syncAnimationsRequest st = Requested
      then st\<lparr>syncAnimationsRequest := RequestRejected\<rparr> else st)"
| "deliver c (AppSends m p) st = sendMessage c m (map_option CallerPromise p) st"

subsection \<open>Promises and await\<close>

text \<open>
  The values that the stage drivers pass to \<open>Promise.all\<close>: a promise, which is resolved
  once the replies with the given numbers have all arrived and rejected when one of them
  fails, or an array of values. \<open>Promise.all\<close> waits for the promises among the elements
  of its argument; an element that is not a promise, such as an array, is a value that is
  already there.
\<close>

datatype JSValue = PromiseOf "nat list" | ArrayOf "JSValue list"

fun awaitedBy :: "JSValue \<Rightarrow> nat list" where
  "awaitedBy (PromiseOf ns) = ns"
| "awaitedBy (ArrayOf vs) = []"

definition Promise_all :: "JSValue list \<Rightarrow> JSValue" where
  "Promise_all vs = PromiseOf (concat (map awaitedBy vs))"

text \<open>
  What an \<open>await\<close> of the protocol waits for: replies to given messages, the promises
  of all calls of \<open>createActorRecursive\<close>, the answer to the \<open>sync-animations\<close> request,
  or every outstanding reply.
\<close>

datatype Awaited = RepliesTo "nat list" | ActorsCreated | AnimationsAnswer | AllReplies

fun awaitsActor :: "nat \<times> ExportedPromise \<Rightarrow> bool" where
  "awaitsActor (n, ResponsePromise (Some node)) = True"
| "awaitsActor (n, p) = False"

fun isRejected :: "State \<Rightarrow> Awaited \<Rightarrow> bool" where
  "isRejected st (RepliesTo ns) = list_ex (\<lambda>n. n \<in> set (failedReplies st)) ns"
| "isRejected st ActorsCreated = False"
| "isRejected st AnimationsAnswer = (syncAnimationsRequest st = RequestRejected)"
| "isRejected st AllReplies = False"

text \<open>
  Modelled from the spec: \<open>Protocol.drainPromises\<close> (not among the sources) is
  \<open>await_all_pending_replies()\<close>: it returns when no reply is outstanding.
\<close>

fun isResolved :: "State \<Rightarrow> Awaited \<Rightarrow> bool" where
  "isResolved st (RepliesTo ns) = list_all (\<lambda>n. map_of (promises st) n = None) ns"
| "isResolved st ActorsCreated = (\<not> stalled st \<and> \<not> list_ex awaitsActor (promises st))"
| "isResolved st AnimationsAnswer = (syncAnimationsRequest st = RequestResolved)"
| "isResolved st AllReplies = (promises st = [])"

text \<open>
  An \<open>await\<close> returns, throws, or is still suspended when nothing more arrives. A
  promise that is settled already is not waited for: nothing is delivered before the
  code goes on.
\<close>

datatype Outcome = Returned | Threw | Suspended

fun await :: "Client \<Rightarrow> Awaited \<Rightarrow> Incoming list \<Rightarrow> State \<Rightarrow> Outcome \<times> Incoming list \<times> State" where
  "await c w [] st =
     (if isRejected st w then Threw else if isResolved st w then Returned else Suspended, [], st)"
| "await c w (e # es) st =
     (if isRejected st w then (Threw, e # es, st)
      else if isResolved st w then (Returned, e # es, st)
      else await c w es (deliver c e st))"

subsection \<open>The stage drivers\<close>

definition stage_load_assets :: "Client \<Rightarrow> Incoming list \<Rightarrow> State \<Rightarrow> Outcome \<times> Incoming list \<times> State" where
  "stage_load_assets c es st =
     (case mapState (\<lambda>m. sendAndExpectResponse m None) (assets (session c)) st of
        (ps, st1) \<Rightarrow>
          (case await c (RepliesTo (awaitedBy (Promise_all (map (\<lambda>n. PromiseOf [n]) ps)))) es st1 of
             (Returned, es2, st2) \<Rightarrow>
               (Returned, es2,
                fold (\<lambda>pl. sendMessage c \<lparr>payload = pl\<rparr> None) (assetUpdates (session c)) st2)
           | r \<Rightarrow> r))"

definition stage_create_actors :: "Client \<Rightarrow> Incoming list \<Rightarrow> State \<Rightarrow> Outcome \<times> Incoming list \<times> State" where
  "stage_create_actors c es st =
     (case fold createActorRecursive (rootActors (session c)) (st, []) of
        (st1, q) \<Rightarrow> await c ActorsCreated es (runMicrotasks q st1))"

definition createActorBehavior :: "SyncActor \<Rightarrow> State \<Rightarrow> State" where
  "createActorBehavior actor st =
     (case behavior actor of
        None \<Rightarrow> st
      | Some b \<Rightarrow> if b \<noteq> [] then Protocol_sendPayload (SetBehavior b (actorId actor)) st else st)"

definition stage_set_behaviors :: "Client \<Rightarrow> Incoming list \<Rightarrow> State \<Rightarrow> Outcome \<times> Incoming list \<times> State" where
  "stage_set_behaviors c es st = (Returned, es, fold createActorBehavior (actors (session c)) st)"

text \<open>
  One turn of the loop of \<open>createActorInterpolations\<close>, for the cached object at address
  \<open>a\<close>: the object literal \<open>{...activeInterpolation, enabled: false}\<close> is a new object, at
  the next free address of the store, and it is the one handed to \<open>sendPayload\<close>. (An
  address outside the store is no object; there is none in a cache.)
\<close>

definition forwardInterpolation :: "nat \<Rightarrow> State \<Rightarrow> State" where
  "forwardInterpolation a st =
     (if a < length (objects st)
      then (let activeInterpolation = (objects st ! a)\<lparr>enabled := False\<rparr>
            in Protocol_sendPayload (Interpolate activeInterpolation)
                 (st\<lparr>objects := objects st @ [activeInterpolation]\<rparr>))
      else st)"

definition createActorInterpolations :: "SyncActor \<Rightarrow> State \<Rightarrow> State" where
  "createActorInterpolations actor st =
     fold forwardInterpolation
       (case activeInterpolations actor of None \<Rightarrow> [] | Some l \<Rightarrow> l) st"

definition createActorAnimations :: "SyncActor \<Rightarrow> State \<Rightarrow> JSValue \<times> State" where
  "createActorAnimations actor st =
     (case mapState (\<lambda>createdAnimation. sendAndExpectResponse (animationMessage createdAnimation) None)
             (case createdAnimations actor of None \<Rightarrow> [] | Some l \<Rightarrow> l) st of
        (ps, st1) \<Rightarrow> (Promise_all [ArrayOf (map (\<lambda>n. PromiseOf [n]) ps)], st1))"

definition stage_create_animations :: "Client \<Rightarrow> Incoming list \<Rightarrow> State \<Rightarrow> Outcome \<times> Incoming list \<times> State" where
  "stage_create_animations c es st =
     (let st1 = fold createActorInterpolations (actors (session c)) st
      in case mapState createActorAnimations (actors (session c)) st1 of
           (vs, st2) \<Rightarrow> await c (RepliesTo (awaitedBy (Promise_all [ArrayOf vs]))) es st2)"

definition stage_sync_animations :: "Client \<Rightarrow> Incoming list \<Rightarrow> State \<Rightarrow> Outcome \<times> Incoming list \<times> State" where
  "stage_sync_animations c es st =
     (if authoritativeOrder (session c) = order c then (Returned, es, st)
      else await c AnimationsAnswer es
             ((emit (AuthoritativeSent SyncAnimationsRequest) st)
                \<lparr>syncAnimationsRequest := Requested\<rparr>))"

text \<open>
  \<open>executeStage\<close> looks the handler up by the name \<open>stage:<stage>\<close>; the class has one
  for each stage of the sequence and none for \<open>always\<close> and \<open>never\<close>.
\<close>

fun executeStage :: "Client \<Rightarrow> SynchronizationStage \<Rightarrow> Incoming list \<Rightarrow> State \<Rightarrow> Outcome \<times> Incoming list \<times> State" where
  "executeStage c LoadAssets es st = stage_load_assets c es (emit (StageExecuted LoadAssets) st)"
| "executeStage c CreateActors es st = stage_create_actors c es (emit (StageExecuted CreateActors) st)"
| "executeStage c SetBehaviors es st = stage_set_behaviors c es (emit (StageExecuted SetBehaviors) st)"
| "executeStage c CreateAnimations es st =
     stage_create_animations c es (emit (StageExecuted CreateAnimations) st)"
| "executeStage c SyncAnimations es st =
     stage_sync_animations c es (emit (StageExecuted SyncAnimations) st)"
| "executeStage c s es st = (Returned, es, emit (Console (NoHandler s)) (emit (StageExecuted s) st))"

subsection \<open>Draining the queue\<close>

definition allowedNow :: "Client \<Rightarrow> State \<Rightarrow> Message \<times> ExportedPromise option \<Rightarrow> bool" where
  "allowedNow c st queuedMessage = (handlingForMessage c (fst queuedMessage) st = Allow)"

text \<open>
  Modelled from the spec: \<open>Client.filterQueuedMessages\<close> (not among the sources)
  "removes matching entries in order, returning them to the caller".
\<close>

definition filterQueuedMessages ::
  "(Message \<times> ExportedPromise option \<Rightarrow> bool) \<Rightarrow> State
     \<Rightarrow> (Message \<times> ExportedPromise option) list \<times> State" where
  "filterQueuedMessages P st =
     (filter P (queuedMessages st),
      st\<lparr>queuedMessages := filter (\<lambda>queuedMessage. \<not> P queuedMessage) (queuedMessages st)\<rparr>)"

text \<open>
  A state \<open>st'\<close> is within the stage of \<open>st\<close> when it has the same stages in progress and
  complete and the same queued messages that are allowed now, and when its trace and its
  store extend those of \<open>st\<close> without a step of the driver. Everything the protocol does
  between two steps of the driver keeps this, which is why the loop below ends.
\<close>

definition withinStage :: "Client \<Rightarrow> State \<Rightarrow> State \<Rightarrow> bool" where
  "withinStage c st st' =
     (inProgressStages st' = inProgressStages st \<and> completedStages st' = completedStages st \<and>
      filter (allowedNow c st) (queuedMessages st') = filter (allowedNow c st) (queuedMessages st) \<and>
      prefix (trace st) (trace st') \<and> driverSteps (trace st') = driverSteps (trace st) \<and>
      prefix (objects st) (objects st'))"

text \<open>The part of this that does not look at the queue.\<close>

definition quiet :: "State \<Rightarrow> State \<Rightarrow> bool" where
  "quiet st st' =
     (inProgressStages st' = inProgressStages st \<and> completedStages st' = completedStages st \<and>
      prefix (trace st) (trace st') \<and> driverSteps (trace st') = driverSteps (trace st) \<and>
      prefix (objects st) (objects st'))"

lemma handlingForMessage_stages:
  "inProgressStages st' = inProgressStages st \<Longrightarrow> completedStages st' = completedStages st \<Longrightarrow>
   handlingForMessage c m st' = handlingForMessage c m st"
  by (simp add: handlingForMessage_def isStageComplete_def isStageInProgress_def cong: if_cong)

lemma allowedNow_stages:
  assumes "inProgressStages st' = inProgressStages st" and "completedStages st' = completedStages st"
  shows "allowedNow c st' = allowedNow c st"
proof (rule ext)
  fix queuedMessage
  show "allowedNow c st' queuedMessage = allowedNow c st queuedMessage"
    unfolding allowedNow_def handlingForMessage_stages [OF assms] ..
qed

lemma withinStage_refl: "withinStage c st st"
  by (simp add: withinStage_def)

lemma withinStage_trans:
  assumes "withinStage c st st1" and "withinStage c st1 st2"
  shows "withinStage c st st2"
proof -
  have "allowedNow c st1 = allowedNow c st"
    using assms(1) by (intro allowedNow_stages) (simp_all add: withinStage_def)
  then show ?thesis
    using assms prefix_order.trans [of "trace st" "trace st1" "trace st2"]
      prefix_order.trans [of "objects st" "objects st1" "objects st2"]
    by (simp add: withinStage_def)
qed

lemma withinStage_emit: "driverStep e = [] \<Longrightarrow> withinStage c st (emit e st)"
  by (simp add: withinStage_def emit_def driverSteps_def)

lemma withinStage_Protocol_sendMessage: "withinStage c st (Protocol_sendMessage m p st)"
  by (simp add: withinStage_def Protocol_sendMessage_def emit_def driverSteps_def)

lemma withinStage_sendMessage: "withinStage c st (sendMessage c m p st)"
proof (cases "handlingForMessage c m st")
  case Allow
  then show ?thesis by (simp add: sendMessage_def withinStage_Protocol_sendMessage)
next
  case Queue
  then show ?thesis by (simp add: sendMessage_def withinStage_def queueMessage_def allowedNow_def)
next
  case Ignore
  then show ?thesis by (simp add: sendMessage_def withinStage_refl)
next
  case Error
  then show ?thesis by (simp add: sendMessage_def withinStage_emit)
qed

lemma withinStage_fold:
  assumes "\<And>x st. withinStage c st (f x st)"
  shows "withinStage c st (fold f xs st)"
proof (induction xs arbitrary: st)
  case Nil
  show ?case by (simp add: withinStage_refl)
next
  case (Cons x xs)
  show ?case using withinStage_trans [OF assms Cons.IH] by simp
qed

lemma withinStage_createActorRecursive:
  "withinStage c (fst sq) (fst (createActorRecursive node sq))"
  by (cases sq)
    (simp add: createActorRecursive_cases withinStage_refl withinStage_Protocol_sendMessage)

lemma withinStage_fold_createActorRecursive:
  "withinStage c (fst sq) (fst (fold createActorRecursive cs sq))"
proof (induction cs arbitrary: sq)
  case Nil
  show ?case by (simp add: withinStage_refl)
next
  case (Cons node cs)
  show ?case
    using withinStage_trans [OF withinStage_createActorRecursive Cons.IH] by simp
qed

lemma withinStage_stalled: "withinStage c st (st\<lparr>stalled := True\<rparr>)"
  by (simp add: withinStage_def)

lemma withinStage_runMicrotasks: "withinStage c st (runMicrotasks q st)"
proof (induction q st rule: runMicrotasks.induct)
  case (1 st)
  show ?case by (simp add: withinStage_refl)
next
  case (2 node q st)
  show ?case
  proof (cases "created (nodeActor node)")
    case None
    with 2(1) withinStage_trans [OF withinStage_stalled] show ?thesis by simp
  next
    case (Some cr)
    obtain st1 q1 where f: "fold createActorRecursive (childrenOf node) (st, q) = (st1, q1)"
      by (cases "fold createActorRecursive (childrenOf node) (st, q)")
    have "withinStage c st st1"
      using withinStage_fold_createActorRecursive [of c "(st, q)" "childrenOf node"] f by simp
    moreover have "withinStage c st1 (runMicrotasks q1 st1)"
      using 2(2) [OF Some f [symmetric]] by simp
    ultimately show ?thesis using Some f by (simp add: withinStage_trans)
  qed
qed

lemma withinStage_forget: "withinStage c st (forget n st)"
  by (simp add: withinStage_def forget_def)

lemma withinStage_responseArrived: "withinStage c st (responseArrived c r st)"
  by (simp add: responseArrived_def withinStage_emit withinStage_refl)

lemma withinStage_animationsArrived: "withinStage c st (animationsArrived c xs st)"
  by (simp add: withinStage_def animationsArrived_def Protocol_sendPayload_def
      Protocol_sendMessage_def emit_def driverSteps_def)

lemma withinStage_deliver: "withinStage c st (deliver c e st)"
proof (cases e)
  case (ReplyArrives n r)
  have a: "withinStage c st (emit (Received n r) (forget n st))"
    by (rule withinStage_trans [OF withinStage_forget withinStage_emit]) simp
  have a2: "withinStage c st (emit (CallerResolved k v) (emit (Received n r) (forget n st)))" for k v
    by (rule withinStage_trans [OF a withinStage_emit]) simp
  have b: "withinStage c st (responseArrived c r (emit (Received n r) (forget n st)))"
    using withinStage_trans [OF a withinStage_responseArrived] .
  show ?thesis
    using ReplyArrives a2 b withinStage_trans [OF b withinStage_runMicrotasks]
    by (simp add: withinStage_refl Let_def del: runMicrotasks.simps
        split: option.splits ExportedPromise.splits)
next
  case (ReplyFails n)
  have a: "withinStage c st ((forget n st)\<lparr>stalled := True\<rparr>)"
    using withinStage_trans [OF withinStage_forget withinStage_stalled] .
  have b: "withinStage c st ((forget n st)\<lparr>failedReplies := failedReplies st @ [n]\<rparr>)"
    by (simp add: withinStage_def forget_def)
  have c: "withinStage c st (emit (CallerRejected k) (forget n st))" for k
    by (rule withinStage_trans [OF withinStage_forget withinStage_emit]) simp
  show ?thesis
    using ReplyFails a b c
    by (simp add: withinStage_refl split: option.splits ExportedPromise.splits)
next
  case (AnimationsArrive xs)
  then show ?thesis by (simp add: withinStage_refl withinStage_animationsArrived)
next
  case AnimationsFail
  then show ?thesis by (simp add: withinStage_def)
next
  case (AppSends m p)
  then show ?thesis by (simp add: withinStage_sendMessage)
qed

lemma withinStage_await: "withinStage c st (snd (snd (await c w es st)))"
proof (induction es arbitrary: st)
  case Nil
  show ?case by (simp add: withinStage_refl)
next
  case (Cons e es)
  show ?case
    using withinStage_trans [OF withinStage_deliver Cons.IH]
    by (simp add: withinStage_refl)
qed

lemma filterQueuedMessages_allowedNow:
  assumes "filterQueuedMessages (allowedNow c st) st = (taken, st1)"
  shows "taken = filter (allowedNow c st) (queuedMessages st)"
    and "withinStage c st1 st2 \<Longrightarrow> filter (allowedNow c st2) (queuedMessages st2) = []"
proof -
  have st1: "st1 = st\<lparr>queuedMessages := filter (\<lambda>qm. \<not> allowedNow c st qm) (queuedMessages st)\<rparr>"
    using assms by (auto simp: filterQueuedMessages_def)
  show "taken = filter (allowedNow c st) (queuedMessages st)"
    using assms by (auto simp: filterQueuedMessages_def)
  assume r: "withinStage c st1 st2"
  have same: "allowedNow c st1 = allowedNow c st"
    by (rule allowedNow_stages) (simp_all add: st1)
  have "allowedNow c st2 = allowedNow c st1"
    using r by (intro allowedNow_stages) (simp_all add: withinStage_def)
  moreover have "filter (allowedNow c st1) (queuedMessages st2) = filter (allowedNow c st1) (queuedMessages st1)"
    using r by (simp add: withinStage_def)
  moreover have "filter (allowedNow c st1) (queuedMessages st1) = []"
    unfolding same by (simp add: st1)
  ultimately show "filter (allowedNow c st2) (queuedMessages st2) = []"
    by simp
qed

text \<open>The loop \<open>do { ... } while (true)\<close> of \<open>sendQueuedMessages\<close>.\<close>

function sendQueuedLoop :: "Client \<Rightarrow> Incoming list \<Rightarrow> State \<Rightarrow> Outcome \<times> Incoming list \<times> State" where
  "sendQueuedLoop c es st =
     (case filterQueuedMessages (allowedNow c st) st of
        (queued, st1) \<Rightarrow>
          if queued = [] then (Returned, es, st1)
          else (case await c AllReplies es
                       (fold (\<lambda>queuedMessage. sendMessage c (fst queuedMessage) (snd queuedMessage))
                          queued st1) of
                  (Returned, es2, st2) \<Rightarrow> sendQueuedLoop c es2 st2
                | r \<Rightarrow> r))"
  by pat_completeness auto
termination
proof (relation "measure (\<lambda>(c, es, st). length (filter (allowedNow c st) (queuedMessages st)))",
    goal_cases)
  case 1
  show ?case by simp
next
  case (2 c es st queued st1 o2 r2 es2 st2)
  let ?sent = "fold (\<lambda>queuedMessage. sendMessage c (fst queuedMessage) (snd queuedMessage)) queued st1"
  have "st2 = snd (snd (await c AllReplies es ?sent))"
    using 2 by (metis snd_conv)
  then have "withinStage c ?sent st2"
    using withinStage_await [of c ?sent AllReplies es] by simp
  then have "withinStage c st1 st2"
    using withinStage_trans [OF withinStage_fold [of c "\<lambda>qm. sendMessage c (fst qm) (snd qm)" st1 queued]]
    by (simp add: withinStage_sendMessage)
  then have "filter (allowedNow c st2) (queuedMessages st2) = []"
    using filterQueuedMessages_allowedNow(2) [OF 2(1) [symmetric]] by simp
  moreover have "filter (allowedNow c st) (queuedMessages st) \<noteq> []"
    using filterQueuedMessages_allowedNow(1) [OF 2(1) [symmetric]] 2(2) by simp
  ultimately show ?case by simp
qed

declare sendQueuedLoop.simps [simp del]

definition sendQueuedMessages :: "Client \<Rightarrow> Incoming list \<Rightarrow> State \<Rightarrow> Outcome \<times> Incoming list \<times> State" where
  "sendQueuedMessages c es st = sendQueuedLoop c es (emit QueueDrained st)"

text \<open>
  One turn of the loop up to its \<open>await\<close>: the messages that are allowed now are taken
  out of the queue and sent.
\<close>

definition drainSends :: "Client \<Rightarrow> State \<Rightarrow> State" where
  "drainSends c st =
     (case filterQueuedMessages (allowedNow c st) st of
        (queued, st1) \<Rightarrow>
          fold (\<lambda>queuedMessage. sendMessage c (fst queuedMessage) (snd queuedMessage)) queued st1)"

subsection \<open>The driver\<close>

text \<open>The loop of \<open>run\<close> over the sequence.\<close>

fun runSequence :: "Client \<Rightarrow> SynchronizationStage list \<Rightarrow> Incoming list \<Rightarrow> State \<Rightarrow> Outcome \<times> Incoming list \<times> State" where
  "runSequence c [] es st = (Returned, es, st)"
| "runSequence c (s # rest) es st =
     (case executeStage c s es (beginStage s st) of
        (Returned, es1, st1) \<Rightarrow>
          (case sendQueuedMessages c es1 (completeStage s st1) of
             (Returned, es2, st2) \<Rightarrow> runSequence c rest es2 st2
           | r \<Rightarrow> r)
      | r \<Rightarrow> r)"

text \<open>
  \<open>run\<close>. An exception of the \<open>try\<close> block ends in \<open>this.reject(e)\<close>; \<open>run\<close> itself does
  not throw. (\<open>startListening\<close> of the base class sends nothing.)
\<close>

definition run :: "Client \<Rightarrow> Incoming list \<Rightarrow> State \<Rightarrow> Outcome \<times> Incoming list \<times> State" where
  "run c es st =
     (case (if peerAuthoritative (session c)
            then runSequence c sequence es (beginStage Always st)
            else (Returned, es, beginStage Always st)) of
        (Returned, es1, st1) \<Rightarrow>
          (case sendQueuedMessages c es1
                  (sendMessage c \<lparr>payload = SyncComplete\<rparr> None (completeStage Always st1)) of
             (Returned, es2, st2) \<Rightarrow> (Returned, es2, emit ProtocolResolved st2)
           | (Threw, es2, st2) \<Rightarrow> (Returned, es2, emit ProtocolRejected st2)
           | r \<Rightarrow> r)
      | (Threw, es1, st1) \<Rightarrow> (Returned, es1, emit ProtocolRejected st1)
      | r \<Rightarrow> r)"

text \<open>The state of a new \<open>ClientSync\<close>, over the objects of the session cache.\<close>

definition newState :: "InterpolateActor list \<Rightarrow> State" where
  "newState cache =
     \<lparr>inProgressStages = [], completedStages = [], queuedMessages = [], promises = [],
      nextId = 0, failedReplies = [], stalled = False, syncAnimationsRequest = NotRequested,
      objects = cache, trace = []\<rparr>"

subsection \<open>Reading the trace\<close>

text \<open>The steps of one stage of the sequence, as the loop of \<open>run\<close> is written.\<close>

definition stageSteps :: "SynchronizationStage \<Rightarrow> DriverStep list" where
  "stageSteps s = [Begin s, Execute s, Complete s, Drain]"

text \<open>
  The stage sets after a list of steps, from the sets \<open>(inProgress, completed)\<close>: what
  \<open>beginStage\<close> and \<open>completeStage\<close> do to them.
\<close>

fun stagesAfter :: "DriverStep list \<Rightarrow> SynchronizationStage list \<times> SynchronizationStage list
    \<Rightarrow> SynchronizationStage list \<times> SynchronizationStage list" where
  "stagesAfter [] ic = ic"
| "stagesAfter (Begin s # steps) (i, c) = stagesAfter steps (i @ [s], c)"
| "stagesAfter (Complete s # steps) (i, c) = stagesAfter steps (filter (\<lambda>item. item \<noteq> s) i, c @ [s])"
| "stagesAfter (d # steps) ic = stagesAfter steps ic"

definition stagesOf :: "State \<Rightarrow> SynchronizationStage list \<times> SynchronizationStage list" where
  "stagesOf st = (inProgressStages st, completedStages st)"

text \<open>
  From \<open>st\<close> to \<open>st'\<close> the driver takes the steps \<open>X\<close>: the trace and the store grow, the
  steps of the driver in the trace grow by \<open>X\<close>, and the stage sets are those after \<open>X\<close>.
\<close>

definition stepped :: "DriverStep list \<Rightarrow> State \<Rightarrow> State \<Rightarrow> bool" where
  "stepped X st st' =
     (driverSteps (trace st') = driverSteps (trace st) @ X \<and>
      stagesOf st' = stagesAfter X (stagesOf st) \<and>
      prefix (trace st) (trace st') \<and> prefix (objects st) (objects st'))"

text \<open>The steps of the sequence, and the three ways in which \<open>run\<close> ends.\<close>

definition sequenceSteps :: "bool \<Rightarrow> DriverStep list" where
  "sequenceSteps peerAuth = (if peerAuth then concat (map stageSteps sequence) else [])"

definition runRejected :: "Client \<Rightarrow> State \<Rightarrow> State \<Rightarrow> bool" where
  "runRejected c st st' =
     (\<exists>st1 X. st' = emit ProtocolRejected st1 \<and> stepped (Begin Always # X) st st1 \<and>
        prefix X (sequenceSteps (peerAuthoritative (session c))))"

definition runSuspended :: "Client \<Rightarrow> State \<Rightarrow> State \<Rightarrow> bool" where
  "runSuspended c st st' =
     (\<exists>X. stepped (Begin Always # X) st st' \<and>
        prefix X (sequenceSteps (peerAuthoritative (session c)) @ [Complete Always, Drain]))"

definition runResolved :: "Client \<Rightarrow> Incoming list \<Rightarrow> State \<Rightarrow> State \<Rightarrow> bool" where
  "runResolved c es st st' =
     (\<exists>es1 st1 es3 st3.
        (if peerAuthoritative (session c)
         then runSequence c sequence es (beginStage Always st)
         else (Returned, es, beginStage Always st)) = (Returned, es1, st1) \<and>
        sendQueuedMessages c es1
          (sendMessage c \<lparr>payload = SyncComplete\<rparr> None (completeStage Always st1))
          = (Returned, es3, st3) \<and>
        st' = emit ProtocolResolved st3 \<and>
        stepped (Begin Always # sequenceSteps (peerAuthoritative (session c))) st st1 \<and>
        stepped [Complete Always, Drain] st1 st3)"

text \<open>
  The status of a stage in the stage sets, and the two moves of a status:
  absent to in progress, in progress to complete.
\<close>

datatype StageStatus = Absent | InProgress | Completed

definition stageStatus ::
  "SynchronizationStage list \<times> SynchronizationStage list \<Rightarrow> SynchronizationStage \<Rightarrow> StageStatus" where
  "stageStatus ic s =
     (if s \<in> set (snd ic) then Completed
      else if s \<in> set (fst ic) then InProgress
      else Absent)"

definition advances :: "StageStatus \<Rightarrow> StageStatus \<Rightarrow> bool" where
  "advances a b =
     (a = b \<or> (a = Absent \<and> b = InProgress) \<or> (a = InProgress \<and> b = Completed))"

text \<open>
  A list of steps is in order, from given stage sets, when before each step and at the
  end the two sets are disjoint and each step moves the status of every stage by at most
  one of the two moves.
\<close>

definition allStages :: "SynchronizationStage list" where
  "allStages = [Always, LoadAssets, CreateActors, CreateAnimations, SyncAnimations, SetBehaviors, Never]"

fun stepsOk :: "DriverStep list \<Rightarrow> SynchronizationStage list \<times> SynchronizationStage list \<Rightarrow> bool" where
  "stepsOk [] ic = (set (fst ic) \<inter> set (snd ic) = {})"
| "stepsOk (d # ds) ic =
     (set (fst ic) \<inter> set (snd ic) = {} \<and>
      list_all (\<lambda>s. advances (stageStatus ic s) (stageStatus (stagesAfter [d] ic) s)) allStages \<and>
      stepsOk ds (stagesAfter [d] ic))"

subsection \<open>The \<open>sync-complete\<close> payloads of a run\<close>

text \<open>
  A message is a \<open>sync-complete\<close> message when its payload has that type, whoever made
  it; \<open>syncCompletesSent\<close> counts the messages of that kind that a trace hands to the
  connection.
\<close>

definition isSyncComplete :: "Message \<Rightarrow> bool" where
  "isSyncComplete m = (payload_type (payload m) = Some ''sync-complete'')"

fun sentSyncComplete :: "Event \<Rightarrow> bool" where
  "sentSyncComplete (Sent k m p) = isSyncComplete m"
| "sentSyncComplete e = False"

definition syncCompletesSent :: "Event list \<Rightarrow> nat" where
  "syncCompletesSent tr = length (filter sentSyncComplete tr)"

text \<open>
  The messages that a run can send other than its own: those of the session cache
  (assets, asset updates, the created messages of the actor tree, the messages of the
  created animations) and those that the application sends while the run waits.
\<close>

fun createMessages :: "ActorNode \<Rightarrow> Message list" where
  "createMessages (ActorNode a cs) =
     (case created a of None \<Rightarrow> [] | Some cr \<Rightarrow> [message cr]) @ concat (map createMessages cs)"

definition cachedMessages :: "Client \<Rightarrow> Message list" where
  "cachedMessages c =
     assets (session c) @ map (\<lambda>pl. \<lparr>payload = pl\<rparr>) (assetUpdates (session c)) @
     concat (map createMessages (rootActors (session c))) @
     concat (map (\<lambda>a. map animationMessage (case createdAnimations a of None \<Rightarrow> [] | Some l \<Rightarrow> l))
       (actors (session c)))"

fun appMessage :: "Incoming \<Rightarrow> Message list" where
  "appMessage (AppSends m p) = [m]"
| "appMessage e = []"

definition appMessages :: "Incoming list \<Rightarrow> Message list" where
  "appMessages es = concat (map appMessage es)"

text \<open>
  The messages that a state can still send: the queued ones, and the created messages of
  the actors whose creation waits for an outstanding reply.
\<close>

fun promiseMessages :: "ExportedPromise \<Rightarrow> Message list" where
  "promiseMessages (ResponsePromise (Some node)) = concat (map createMessages (childrenOf node))"
| "promiseMessages p = []"

definition pendingMessages :: "State \<Rightarrow> Message list" where
  "pendingMessages st =
     concat (map (\<lambda>qm. fst qm # (case snd qm of None \<Rightarrow> [] | Some q \<Rightarrow> promiseMessages q))
       (queuedMessages st)) @
     concat (map (\<lambda>np. promiseMessages (snd np)) (promises st))"

definition noSyncComplete :: "Message list \<Rightarrow> bool" where
  "noSyncComplete ms = list_all (\<lambda>m. \<not> isSyncComplete m) ms"

text \<open>
  From \<open>st\<close> to \<open>st'\<close> no \<open>sync-complete\<close> message is sent, if \<open>st\<close> holds none to send.
\<close>

definition keeps :: "State \<Rightarrow> State \<Rightarrow> bool" where
  "keeps st st' =
     (noSyncComplete (pendingMessages st) \<longrightarrow>
        noSyncComplete (pendingMessages st') \<and>
        syncCompletesSent (trace st') = syncCompletesSent (trace st))"

definition cleanChildren :: "ActorNode \<Rightarrow> bool" where
  "cleanChildren node = list_all (\<lambda>n. noSyncComplete (createMessages n)) (childrenOf node)"

subsection \<open>A session for the examples\<close>

text \<open>
  The representative rules of the specification, with a rule that lets the driver's
  \<open>sync-complete\<close> pass as the control messages do, the default rule that the
  specification gives, and a
  cache with one asset, one asset update and the actor \<open>A\<close> with its child \<open>B\<close>. \<open>A\<close> has
  the behavior \<open>button\<close>, one active interpolation (the object at address 0, enabled) and
  one created animation.
\<close>

definition exampleRules :: "string \<Rightarrow> Rule option" where
  "exampleRules = map_of
     [(''load-assets'', \<lparr>stage = LoadAssets, before = Queue, during = Allow, after = Allow\<rparr>),
      (''asset-update'', \<lparr>stage = LoadAssets, before = Queue, during = Allow, after = Allow\<rparr>),
      (''create-empty'', \<lparr>stage = CreateActors, before = Queue, during = Allow, after = Allow\<rparr>),
      (''set-behavior'', \<lparr>stage = SetBehaviors, before = Queue, during = Allow, after = Allow\<rparr>),
      (''create-animation'', \<lparr>stage = CreateAnimations, before = Queue, during = Allow, after = Allow\<rparr>),
      (''interpolate-actor'', \<lparr>stage = CreateAnimations, before = Queue, during = Allow, after = Allow\<rparr>),
      (''sync-animations'', \<lparr>stage = SyncAnimations, before = Ignore, during = Allow, after = Allow\<rparr>),
      (''actor-update'', \<lparr>stage = Never, before = Queue, during = Queue, after = Allow\<rparr>),
      (''heartbeat'', \<lparr>stage = Always, before = Allow, during = Allow, after = Allow\<rparr>),
      (''sync-complete'', \<lparr>stage = Always, before = Allow, during = Allow, after = Allow\<rparr>)]"

definition exampleMissingRule :: Rule where
  "exampleMissingRule = \<lparr>stage = Never, before = Queue, during = Queue, after = Allow\<rparr>"

definition createA :: Message where
  "createA = \<lparr>payload = CreateActorCommon (Some ''create-empty'') ''A''\<rparr>"

definition createB :: Message where
  "createB = \<lparr>payload = CreateActorCommon (Some ''create-empty'') ''B''\<rparr>"

definition createAnimationA :: Message where
  "createAnimationA = \<lparr>payload = OtherPayload (Some ''create-animation'')\<rparr>"

definition loadX :: Message where
  "loadX = \<lparr>payload = OtherPayload (Some ''load-assets'')\<rparr>"

definition actorA :: SyncActor where
  "actorA =
     \<lparr>actorId = Some ''A'', created = Some \<lparr>message = createA\<rparr>,
      createdAnimations = Some [\<lparr>animationMessage = createAnimationA, animationEnabled = True\<rparr>],
      activeInterpolations = Some [0], behavior = Some ''button''\<rparr>"

definition actorB :: SyncActor where
  "actorB =
     \<lparr>actorId = Some ''B'', created = Some \<lparr>message = createB\<rparr>,
      createdAnimations = None, activeInterpolations = None, behavior = None\<rparr>"

definition exampleObjects :: "InterpolateActor list" where
  "exampleObjects = [\<lparr>interpolatedActorId = ''A'', animationName = ''spin'', enabled = True\<rparr>]"

definition exampleSession :: Session where
  "exampleSession =
     \<lparr>peerAuthoritative = True, assets = [loadX],
      assetUpdates = [OtherPayload (Some ''asset-update'')],
      rootActors = [ActorNode actorA [ActorNode actorB []]], actors = [actorA, actorB],
      authoritativeOrder = 0, authoritativeLatencyMs = Finite 100\<rparr>"

definition exampleClient :: Client where
  "exampleClient =
     \<lparr>Rules = exampleRules, MissingRule = exampleMissingRule, session = exampleSession,
      order = 1, authoritative = False, latencyMs = Finite 60\<rparr>"

definition reply :: Message where
  "reply = \<lparr>payload = OtherPayload (Some ''operation-result'')\<rparr>"

text \<open>
  What arrives in a run that resolves: the replies to the asset, to the two actors and to
  the created animation, and the answer of the authoritative client.
\<close>

definition exampleArrivals :: "Incoming list" where
  "exampleArrivals =
     [ReplyArrives 0 reply, ReplyArrives 2 reply, ReplyArrives 3 reply, ReplyArrives 6 reply,
      AnimationsArrive []]"

text \<open>
  A state with two queued messages, after the stage \<open>load-assets\<close>: a \<open>load-assets\<close>
  message of the application that expects a reply, which is allowed now, and an actor
  update, which is not.
\<close>

definition queuedState :: State where
  "queuedState =
     completeStage LoadAssets (beginStage LoadAssets
       (queueMessage \<lparr>payload = OtherPayload (Some ''actor-update'')\<rparr> None
         (queueMessage loadX (Some (CallerPromise 7)) (beginStage Always (newState [])))))"

section \<open>Properties\<close>

subsection \<open>What happens within a stage\<close>

text \<open>
  Every stage driver, and everything delivered while it waits, stays within the stage in
  which it started; the queue drain takes messages from the queue and is otherwise quiet.
\<close>

lemma withinStage_mapState:
  assumes "\<And>x st. withinStage c st (snd (f x st))"
  shows "withinStage c st (snd (mapState f xs st))"
proof (induction xs arbitrary: st)
  case Nil
  show ?case by (simp add: withinStage_refl)
next
  case (Cons x xs)
  have "snd (mapState f (x # xs) st) = snd (mapState f xs (snd (f x st)))"
    by (simp split: prod.splits)
  then show ?case
    using withinStage_trans [OF assms Cons.IH] by simp
qed

lemma withinStage_sendAndExpectResponse:
  "withinStage c st (snd (sendAndExpectResponse m a st))"
  by (simp add: sendAndExpectResponse_def withinStage_Protocol_sendMessage)

lemma withinStage_stage_load_assets:
  "withinStage c st (snd (snd (stage_load_assets c es st)))"
proof -
  obtain ps st1 where m: "mapState (\<lambda>m. sendAndExpectResponse m None) (assets (session c)) st = (ps, st1)"
    by (cases "mapState (\<lambda>m. sendAndExpectResponse m None) (assets (session c)) st")
  let ?w = "RepliesTo (awaitedBy (Promise_all (map (\<lambda>n. PromiseOf [n]) ps)))"
  obtain out es2 st2 where a: "await c ?w es st1 = (out, es2, st2)"
    by (cases "await c ?w es st1")
  have 1: "withinStage c st st1"
    using withinStage_mapState [of c "\<lambda>m. sendAndExpectResponse m None" st "assets (session c)"] m
    by (simp add: withinStage_sendAndExpectResponse)
  have 2: "withinStage c st1 st2"
    using withinStage_await [of c st1 ?w es] a by simp
  have 3: "withinStage c st2 (fold (\<lambda>pl. sendMessage c \<lparr>payload = pl\<rparr> None) (assetUpdates (session c)) st2)"
    by (rule withinStage_fold) (rule withinStage_sendMessage)
  show ?thesis
    using withinStage_trans [OF 1 2] withinStage_trans [OF withinStage_trans [OF 1 2] 3] m a
    by (cases out) (simp_all add: stage_load_assets_def)
qed

lemma withinStage_stage_create_actors:
  "withinStage c st (snd (snd (stage_create_actors c es st)))"
proof -
  obtain st1 q where f: "fold createActorRecursive (rootActors (session c)) (st, []) = (st1, q)"
    by (cases "fold createActorRecursive (rootActors (session c)) (st, [])")
  have 1: "withinStage c st st1"
    using withinStage_fold_createActorRecursive [of c "(st, [])" "rootActors (session c)"] f by simp
  show ?thesis
    using withinStage_trans [OF 1 withinStage_trans [OF withinStage_runMicrotasks withinStage_await]] f
    by (simp add: stage_create_actors_def)
qed

lemma withinStage_Protocol_sendPayload: "withinStage c st (Protocol_sendPayload pl st)"
  by (simp add: Protocol_sendPayload_def withinStage_Protocol_sendMessage)

lemma withinStage_createActorBehavior: "withinStage c st (createActorBehavior actor st)"
  by (simp add: createActorBehavior_def withinStage_refl withinStage_Protocol_sendPayload
      split: option.splits)

lemma withinStage_stage_set_behaviors:
  "withinStage c st (snd (snd (stage_set_behaviors c es st)))"
  by (simp add: stage_set_behaviors_def withinStage_fold withinStage_createActorBehavior)

lemma withinStage_forwardInterpolation: "withinStage c st (forwardInterpolation a st)"
proof (cases "a < length (objects st)")
  case True
  let ?copy = "(objects st ! a)\<lparr>enabled := False\<rparr>"
  have "withinStage c st (st\<lparr>objects := objects st @ [?copy]\<rparr>)"
    by (simp add: withinStage_def)
  from withinStage_trans [OF this withinStage_Protocol_sendPayload]
  show ?thesis using True by (simp add: forwardInterpolation_def Let_def)
next
  case False
  then show ?thesis by (simp add: forwardInterpolation_def withinStage_refl)
qed

lemma withinStage_createActorInterpolations: "withinStage c st (createActorInterpolations actor st)"
  by (simp add: createActorInterpolations_def withinStage_fold withinStage_forwardInterpolation)

lemma withinStage_createActorAnimations: "withinStage c st (snd (createActorAnimations actor st))"
proof -
  let ?f = "\<lambda>createdAnimation. sendAndExpectResponse (animationMessage createdAnimation) None"
  let ?xs = "case createdAnimations actor of None \<Rightarrow> [] | Some l \<Rightarrow> l"
  obtain ps st1 where m: "mapState ?f ?xs st = (ps, st1)"
    by (cases "mapState ?f ?xs st")
  have "withinStage c st st1"
    using withinStage_mapState [of c ?f st ?xs] m
    by (simp add: withinStage_sendAndExpectResponse)
  then show ?thesis using m by (simp add: createActorAnimations_def)
qed

lemma withinStage_stage_create_animations:
  "withinStage c st (snd (snd (stage_create_animations c es st)))"
proof -
  let ?st1 = "fold createActorInterpolations (actors (session c)) st"
  obtain vs st2 where m: "mapState createActorAnimations (actors (session c)) ?st1 = (vs, st2)"
    by (cases "mapState createActorAnimations (actors (session c)) ?st1")
  have 1: "withinStage c st ?st1"
    by (rule withinStage_fold) (rule withinStage_createActorInterpolations)
  have 2: "withinStage c ?st1 st2"
    using withinStage_mapState [of c createActorAnimations ?st1 "actors (session c)"] m
    by (simp add: withinStage_createActorAnimations)
  show ?thesis
    using withinStage_trans [OF withinStage_trans [OF 1 2] withinStage_await] m
    by (simp add: stage_create_animations_def Let_def)
qed

lemma withinStage_stage_sync_animations:
  "withinStage c st (snd (snd (stage_sync_animations c es st)))"
proof -
  let ?st1 = "(emit (AuthoritativeSent SyncAnimationsRequest) st)\<lparr>syncAnimationsRequest := Requested\<rparr>"
  have "withinStage c st ?st1"
    by (simp add: withinStage_def emit_def driverSteps_def)
  from withinStage_trans [OF this withinStage_await]
  show ?thesis by (simp add: stage_sync_animations_def withinStage_refl)
qed

lemma quiet_refl: "quiet st st"
  by (simp add: quiet_def)

lemma quiet_trans: "quiet st st1 \<Longrightarrow> quiet st1 st2 \<Longrightarrow> quiet st st2"
  using prefix_order.trans [of "trace st" "trace st1" "trace st2"]
    prefix_order.trans [of "objects st" "objects st1" "objects st2"]
  by (simp add: quiet_def)

lemma withinStage_quiet: "withinStage c st st' \<Longrightarrow> quiet st st'"
  by (simp add: withinStage_def quiet_def)

lemma quiet_sendQueuedLoop:
  "quiet st (snd (snd (sendQueuedLoop c es st)))"
proof (induction c es st rule: sendQueuedLoop.induct)
  case (1 c es st)
  obtain queued st1 where f: "filterQueuedMessages (allowedNow c st) st = (queued, st1)"
    by (cases "filterQueuedMessages (allowedNow c st) st")
  have 1: "quiet st st1"
    using f by (auto simp: filterQueuedMessages_def quiet_def)
  show ?case
  proof (cases "queued = []")
    case True
    then show ?thesis using f 1 by (simp add: sendQueuedLoop.simps [of c es st])
  next
    case False
    let ?sent = "fold (\<lambda>queuedMessage. sendMessage c (fst queuedMessage) (snd queuedMessage)) queued st1"
    obtain out es2 st2 where a: "await c AllReplies es ?sent = (out, es2, st2)"
      by (cases "await c AllReplies es ?sent")
    have 2: "withinStage c st1 ?sent"
      by (rule withinStage_fold) (rule withinStage_sendMessage)
    have 3: "withinStage c ?sent st2"
      using withinStage_await [of c ?sent AllReplies es] a by simp
    have 4: "quiet st st2"
      using quiet_trans [OF 1 withinStage_quiet [OF withinStage_trans [OF 2 3]]] .
    show ?thesis
    proof (cases out)
      case Returned
      have "quiet st2 (snd (snd (sendQueuedLoop c es2 st2)))"
        using "1.IH" [OF f [symmetric] False a [symmetric] Returned refl] by simp
      from quiet_trans [OF 4 this] show ?thesis
        using f False a Returned
        by (simp add: sendQueuedLoop.simps [of c es st])
    next
      case Threw
      then show ?thesis using f False a 4
        by (simp add: sendQueuedLoop.simps [of c es st])
    next
      case Suspended
      then show ?thesis using f False a 4
        by (simp add: sendQueuedLoop.simps [of c es st])
    qed
  qed
qed

subsection \<open>The steps of the driver\<close>

lemma driverSteps_append: "driverSteps (xs @ ys) = driverSteps xs @ driverSteps ys"
  by (simp add: driverSteps_def)

lemma stagesAfter_append: "stagesAfter (xs @ ys) ic = stagesAfter ys (stagesAfter xs ic)"
  by (induction xs ic rule: stagesAfter.induct) simp_all

lemma await_AllReplies_not_Threw: "fst (await c AllReplies es st) \<noteq> Threw"
  by (induction es arbitrary: st) simp_all

lemma sendQueuedLoop_not_Threw: "fst (sendQueuedLoop c es st) \<noteq> Threw"
proof (induction c es st rule: sendQueuedLoop.induct)
  case (1 c es st)
  obtain queued st1 where f: "filterQueuedMessages (allowedNow c st) st = (queued, st1)"
    by (cases "filterQueuedMessages (allowedNow c st) st")
  show ?case
  proof (cases "queued = []")
    case True
    then show ?thesis using f by (simp add: sendQueuedLoop.simps [of c es st])
  next
    case False
    let ?sent = "fold (\<lambda>queuedMessage. sendMessage c (fst queuedMessage) (snd queuedMessage)) queued st1"
    obtain out es2 st2 where a: "await c AllReplies es ?sent = (out, es2, st2)"
      by (cases "await c AllReplies es ?sent")
    have nt: "out \<noteq> Threw"
      using await_AllReplies_not_Threw [of c es ?sent] a by simp
    show ?thesis
    proof (cases out)
      case Returned
      then show ?thesis
        using "1.IH" [OF f [symmetric] False a [symmetric] Returned refl] f False a
        by (simp add: sendQueuedLoop.simps [of c es st])
    next
      case Threw
      then show ?thesis using nt by simp
    next
      case Suspended
      then show ?thesis using f False a
        by (simp add: sendQueuedLoop.simps [of c es st])
    qed
  qed
qed

lemma sendQueuedMessages_not_Threw: "fst (sendQueuedMessages c es st) \<noteq> Threw"
  by (simp add: sendQueuedMessages_def sendQueuedLoop_not_Threw)

lemma quiet_emit: "driverStep e = [] \<Longrightarrow> quiet st (emit e st)"
  by (simp add: quiet_def emit_def driverSteps_def)

lemma quiet_executeStage:
  "quiet (emit (StageExecuted s) st) (snd (snd (executeStage c s es st)))"
proof (cases s)
  case LoadAssets
  then show ?thesis by (simp add: withinStage_quiet [OF withinStage_stage_load_assets])
next
  case CreateActors
  then show ?thesis by (simp add: withinStage_quiet [OF withinStage_stage_create_actors])
next
  case SetBehaviors
  then show ?thesis by (simp add: withinStage_quiet [OF withinStage_stage_set_behaviors])
next
  case CreateAnimations
  then show ?thesis by (simp add: withinStage_quiet [OF withinStage_stage_create_animations])
next
  case SyncAnimations
  then show ?thesis by (simp add: withinStage_quiet [OF withinStage_stage_sync_animations])
next
  case Always
  then show ?thesis by (simp add: quiet_emit)
next
  case Never
  then show ?thesis by (simp add: quiet_emit)
qed

lemma quiet_sendQueuedMessages:
  "quiet (emit QueueDrained st) (snd (snd (sendQueuedMessages c es st)))"
  by (simp add: sendQueuedMessages_def quiet_sendQueuedLoop)

lemma stepped_trans: "stepped X st st1 \<Longrightarrow> stepped Y st1 st2 \<Longrightarrow> stepped (X @ Y) st st2"
  using prefix_order.trans [of "trace st" "trace st1" "trace st2"]
    prefix_order.trans [of "objects st" "objects st1" "objects st2"]
  by (simp add: stepped_def stagesAfter_append)

lemma stepped_quiet: "quiet st st' \<Longrightarrow> stepped [] st st'"
  by (simp add: stepped_def quiet_def stagesOf_def)

lemma stepped_beginStage: "stepped [Begin s] st (beginStage s st)"
  by (simp add: stepped_def beginStage_def emit_def driverSteps_def stagesOf_def)

lemma stepped_completeStage: "stepped [Complete s] st (completeStage s st)"
  by (simp add: stepped_def completeStage_def emit_def driverSteps_def stagesOf_def)

lemma stepped_executeStage: "stepped [Execute s] st (snd (snd (executeStage c s es st)))"
proof -
  have "stepped [Execute s] st (emit (StageExecuted s) st)"
    by (simp add: stepped_def emit_def driverSteps_def stagesOf_def)
  from stepped_trans [OF this stepped_quiet [OF quiet_executeStage]]
  show ?thesis by simp
qed

lemma stepped_sendQueuedMessages: "stepped [Drain] st (snd (snd (sendQueuedMessages c es st)))"
proof -
  have "stepped [Drain] st (emit QueueDrained st)"
    by (simp add: stepped_def emit_def driverSteps_def stagesOf_def)
  from stepped_trans [OF this stepped_quiet [OF quiet_sendQueuedMessages]]
  show ?thesis by simp
qed

lemma runSequence_steps:
  "\<exists>X. stepped X st (snd (snd (runSequence c ss es st))) \<and>
       prefix X (concat (map stageSteps ss)) \<and>
       (fst (runSequence c ss es st) = Returned \<longrightarrow> X = concat (map stageSteps ss))"
proof (induction ss arbitrary: es st)
  case Nil
  show ?case by (simp add: stepped_quiet quiet_refl)
next
  case (Cons s ss)
  obtain o1 es1 st1 where e: "executeStage c s es (beginStage s st) = (o1, es1, st1)"
    by (cases "executeStage c s es (beginStage s st)")
  have 1: "stepped [Begin s, Execute s] st st1"
    using stepped_trans [OF stepped_beginStage stepped_executeStage [of s "beginStage s st" c es]] e
    by simp
  obtain o2 es2 st2 where d: "sendQueuedMessages c es1 (completeStage s st1) = (o2, es2, st2)"
    by (cases "sendQueuedMessages c es1 (completeStage s st1)")
  have 2: "stepped [Begin s, Execute s, Complete s, Drain] st st2"
    using stepped_trans [OF 1 stepped_trans [OF stepped_completeStage
          stepped_sendQueuedMessages [of "completeStage s st1" c es1]]] d
    by simp
  show ?case
  proof (cases "o1 = Returned")
    case False
    then have "snd (snd (runSequence c (s # ss) es st)) = st1 \<and> fst (runSequence c (s # ss) es st) \<noteq> Returned"
      using e by (cases o1) simp_all
    then show ?thesis using 1 by (intro exI [of _ "[Begin s, Execute s]"]) (simp add: stageSteps_def [of s])
  next
    case True
    show ?thesis
    proof (cases "o2 = Returned")
      case False
      then have "snd (snd (runSequence c (s # ss) es st)) = st2 \<and> fst (runSequence c (s # ss) es st) \<noteq> Returned"
        using e d True by (cases o2) simp_all
      then show ?thesis using 2
        by (intro exI [of _ "[Begin s, Execute s, Complete s, Drain]"]) (simp add: stageSteps_def [of s])
    next
      case o2: True
      obtain X where X: "stepped X st2 (snd (snd (runSequence c ss es2 st2)))"
        "prefix X (concat (map stageSteps ss))"
        "fst (runSequence c ss es2 st2) = Returned \<longrightarrow> X = concat (map stageSteps ss)"
        using Cons.IH [of st2 es2] by blast
      have r: "runSequence c (s # ss) es st = runSequence c ss es2 st2"
        using e d True o2 by simp
      show ?thesis
        using stepped_trans [OF 2 X(1)] X(2,3) r
        by (intro exI [of _ "[Begin s, Execute s, Complete s, Drain] @ X"]) (simp add: stageSteps_def [of s])
    qed
  qed
qed

lemma quiet_ext:
  assumes "quiet st st'"
  obtains ext where "trace st' = trace st @ ext" and "driverSteps ext = []"
proof -
  obtain ext where e: "trace st' = trace st @ ext"
    using assms by (auto simp: quiet_def prefix_def)
  have "driverSteps ext = []"
    using assms e by (simp add: quiet_def driverSteps_append)
  with e that show ?thesis by blast
qed

lemma run_sequence_part:
  obtains o1 es1 st1 X where
    "(if peerAuthoritative (session c)
      then runSequence c sequence es (beginStage Always st)
      else (Returned, es, beginStage Always st)) = (o1, es1, st1)"
    and "stepped (Begin Always # X) st st1"
    and "prefix X (sequenceSteps (peerAuthoritative (session c)))"
    and "o1 = Returned \<longrightarrow> X = sequenceSteps (peerAuthoritative (session c))"
proof (cases "peerAuthoritative (session c)")
  case True
  obtain X where X: "stepped X (beginStage Always st) (snd (snd (runSequence c sequence es (beginStage Always st))))"
    "prefix X (concat (map stageSteps sequence))"
    "fst (runSequence c sequence es (beginStage Always st)) = Returned \<longrightarrow> X = concat (map stageSteps sequence)"
    using runSequence_steps [of "beginStage Always st" c sequence es] by blast
  obtain o1 es1 st1 where r: "runSequence c sequence es (beginStage Always st) = (o1, es1, st1)"
    by (cases "runSequence c sequence es (beginStage Always st)")
  show ?thesis
    using that [of o1 es1 st1 X] True r X stepped_trans [OF stepped_beginStage X(1)]
    by (simp add: sequenceSteps_def)
next
  case False
  show ?thesis
    using that [of Returned es "beginStage Always st" "[]"] False
      stepped_trans [OF stepped_beginStage stepped_quiet [OF quiet_refl]]
    by (simp add: sequenceSteps_def)
qed

lemma run_ends:
  "(fst (run c es st) = Returned \<and> runRejected c st (snd (snd (run c es st)))) \<or>
   (fst (run c es st) = Suspended \<and> runSuspended c st (snd (snd (run c es st)))) \<or>
   (fst (run c es st) = Returned \<and> runResolved c es st (snd (snd (run c es st))))"
proof -
  obtain o1 es1 st1 X where
    r: "(if peerAuthoritative (session c)
      then runSequence c sequence es (beginStage Always st)
      else (Returned, es, beginStage Always st)) = (o1, es1, st1)"
    and s1: "stepped (Begin Always # X) st st1"
    and p: "prefix X (sequenceSteps (peerAuthoritative (session c)))"
    and full: "o1 = Returned \<longrightarrow> X = sequenceSteps (peerAuthoritative (session c))"
    by (rule run_sequence_part)
  show ?thesis
  proof (cases o1)
    case Threw
    then have "run c es st = (Returned, es1, emit ProtocolRejected st1)"
      using r by (simp add: run_def)
    then show ?thesis using s1 p by (auto simp: runRejected_def)
  next
    case Suspended
    then have "run c es st = (Suspended, es1, st1)"
      using r by (simp add: run_def)
    moreover have "prefix X (sequenceSteps (peerAuthoritative (session c)) @ [Complete Always, Drain])"
      using p by (rule prefix_prefix)
    ultimately show ?thesis using s1 by (auto simp: runSuspended_def)
  next
    case Returned
    let ?st2 = "sendMessage c \<lparr>payload = SyncComplete\<rparr> None (completeStage Always st1)"
    obtain o3 es3 st3 where d: "sendQueuedMessages c es1 ?st2 = (o3, es3, st3)"
      by (cases "sendQueuedMessages c es1 ?st2")
    have X: "X = sequenceSteps (peerAuthoritative (session c))"
      using full Returned by simp
    have "stepped [Complete Always] st1 ?st2"
      using stepped_trans [OF stepped_completeStage
          stepped_quiet [OF withinStage_quiet [OF withinStage_sendMessage]]]
      by simp
    from stepped_trans [OF this stepped_sendQueuedMessages [of ?st2 c es1]]
    have 2: "stepped [Complete Always, Drain] st1 st3"
      using d by simp
    have nt: "o3 \<noteq> Threw"
      using sendQueuedMessages_not_Threw [of c es1 ?st2] d by simp
    show ?thesis
    proof (cases o3)
      case Returned
      then have "run c es st = (Returned, es3, emit ProtocolResolved st3)"
        using r \<open>o1 = Returned\<close> d by (simp add: run_def)
      moreover have "runResolved c es st (emit ProtocolResolved st3)"
        unfolding runResolved_def
        using r \<open>o1 = Returned\<close> d Returned s1 X 2 by blast
      ultimately show ?thesis by simp
    next
      case Threw
      then show ?thesis using nt by simp
    next
      case Suspended
      then have res: "run c es st = (Suspended, es3, st3)"
        using r \<open>o1 = Returned\<close> d by (simp add: run_def)
      have "stepped (Begin Always # X @ [Complete Always, Drain]) st st3"
        using stepped_trans [OF s1 2] by simp
      then show ?thesis
        using res X by (auto simp: runSuspended_def intro!: exI [of _ "X @ [Complete Always, Drain]"])
    qed
  qed
qed

lemma stagesAfter_Cons: "stagesAfter (d # ds) ic = stagesAfter ds (stagesAfter [d] ic)"
  using stagesAfter_append [of "[d]" ds ic] by simp

lemma allStages_all: "s \<in> set allStages"
  by (cases s) (simp_all add: allStages_def)

lemma stepsOk_prefix: "stepsOk L ic \<Longrightarrow> prefix p L \<Longrightarrow> stepsOk p ic"
proof (induction L arbitrary: p ic)
  case Nil
  then show ?case by simp
next
  case (Cons d L)
  show ?case
  proof (cases p)
    case Nil
    then show ?thesis using Cons.prems by simp
  next
    case (Cons e p')
    then show ?thesis using Cons.prems Cons.IH [of "stagesAfter [d] ic" p'] by simp
  qed
qed

lemma stepsOk_disjoint:
  "stepsOk L ic \<Longrightarrow> set (fst (stagesAfter L ic)) \<inter> set (snd (stagesAfter L ic)) = {}"
proof (induction L arbitrary: ic)
  case Nil
  then show ?case by simp
next
  case (Cons d L)
  then show ?case using stagesAfter_Cons [of d L ic] by simp
qed

lemma stepsOk_advances:
  "stepsOk L ic \<Longrightarrow> prefix (q @ [d]) L \<Longrightarrow>
   advances (stageStatus (stagesAfter q ic) s) (stageStatus (stagesAfter (q @ [d]) ic) s)"
proof (induction L arbitrary: q ic)
  case Nil
  then show ?case by simp
next
  case (Cons e L)
  show ?case
  proof (cases q)
    case Nil
    then have "d = e" using Cons.prems(2) by simp
    then show ?thesis using Cons.prems(1) Nil allStages_all [of s]
      by (simp add: list_all_iff)
  next
    case (Cons e' q')
    then have "e' = e" "prefix (q' @ [d]) L" using Cons.prems(2) by simp_all
    then show ?thesis
      using Cons.IH [of "stagesAfter [e] ic" q'] Cons.prems(1) Cons
        stagesAfter_Cons [of e q' ic] stagesAfter_Cons [of e "q' @ [d]" ic]
      by simp
  qed
qed

lemma stepsOk_snoc_Reject: "stepsOk p ic \<Longrightarrow> stepsOk (p @ [Reject]) ic"
proof (induction p arbitrary: ic)
  case Nil
  then show ?case by (cases ic) (simp add: advances_def list_all_iff)
next
  case (Cons d p)
  then show ?case by simp
qed

lemma completed_grows: "prefix (snd ic) (snd (stagesAfter steps ic))"
proof (induction steps ic rule: stagesAfter.induct)
  case (3 s steps i c)
  then show ?case using prefix_order.trans [of c "c @ [s]"] by simp
qed simp_all

lemma stepsOk_resolved_True:
  "stepsOk (Begin Always # sequenceSteps True @ [Complete Always, Drain, Resolve]) ([], [])"
  by (simp add: sequenceSteps_def sequence_def stageSteps_def allStages_def advances_def
      stageStatus_def)

lemma stepsOk_resolved_False:
  "stepsOk (Begin Always # sequenceSteps False @ [Complete Always, Drain, Resolve]) ([], [])"
  by (simp add: sequenceSteps_def sequence_def stageSteps_def allStages_def advances_def
      stageStatus_def)

lemma stepsOk_resolved:
  "stepsOk (Begin Always # sequenceSteps pa @ [Complete Always, Drain, Resolve]) ([], [])"
  using stepsOk_resolved_True stepsOk_resolved_False by (cases pa) simp_all


lemma Resolve_in_steps: "ProtocolResolved \<in> set tr \<Longrightarrow> Resolve \<in> set (driverSteps tr)"
  by (induction tr) (auto simp: driverSteps_def)

lemma Resolve_notin_sequenceSteps: "Resolve \<notin> set (sequenceSteps pa)"
  by (auto simp: sequenceSteps_def sequence_def stageSteps_def)

lemma stagesAfter_tail:
  "stagesAfter [Complete s, Drain, Resolve] ic = stagesAfter [Complete s] ic"
  by (cases ic) simp

lemma run_steps_ok:
  assumes "run c es (newState cache) = (out, es', st')"
  shows "stepsOk (driverSteps (trace st')) ([], [])"
    and "stagesAfter (driverSteps (trace st')) ([], []) = stagesOf st'"
proof -
  let ?pa = "peerAuthoritative (session c)"
  let ?L = "Begin Always # sequenceSteps ?pa @ [Complete Always, Drain, Resolve]"
  have new: "trace (newState cache) = []" "stagesOf (newState cache) = ([], [])"
    by (simp_all add: newState_def stagesOf_def)
  have st': "snd (snd (run c es (newState cache))) = st'"
    using assms by simp
  consider (rejected) "runRejected c (newState cache) st'"
    | (suspended) "runSuspended c (newState cache) st'"
    | (resolved) "runResolved c es (newState cache) st'"
    using run_ends [of c es "newState cache"] st' by auto
  then have "stepsOk (driverSteps (trace st')) ([], []) \<and>
      stagesAfter (driverSteps (trace st')) ([], []) = stagesOf st'"
  proof cases
    case rejected
    then obtain st1 X where a: "st' = emit ProtocolRejected st1"
      "stepped (Begin Always # X) (newState cache) st1"
      "prefix X (sequenceSteps ?pa)"
      by (auto simp: runRejected_def)
    have d1: "driverSteps (trace st1) = Begin Always # X"
      and s1: "stagesOf st1 = stagesAfter (Begin Always # X) ([], [])"
      using a(2) new by (simp_all add: stepped_def driverSteps_def)
    have "prefix (Begin Always # X) ?L"
      using a(3) by (simp add: prefix_prefix)
    then have "stepsOk (Begin Always # X) ([], [])"
      using stepsOk_prefix [OF stepsOk_resolved] by blast
    then have "stepsOk ((Begin Always # X) @ [Reject]) ([], [])"
      by (rule stepsOk_snoc_Reject)
    moreover have "driverSteps (trace st') = (Begin Always # X) @ [Reject]"
      using a(1) d1 by (simp add: emit_def driverSteps_append) (simp add: driverSteps_def)
    moreover have "stagesOf st' = stagesOf st1"
      using a(1) by (simp add: emit_def stagesOf_def)
    moreover have "stagesAfter ((Begin Always # X) @ [Reject]) ([], []) = stagesAfter (Begin Always # X) ([], [])"
      unfolding stagesAfter_append [of "Begin Always # X" "[Reject]"]
      by (cases "stagesAfter (Begin Always # X) ([], [])") simp
    ultimately show ?thesis using s1 by simp
  next
    case suspended
    then obtain X where a: "stepped (Begin Always # X) (newState cache) st'"
      "prefix X (sequenceSteps ?pa @ [Complete Always, Drain])"
      by (auto simp: runSuspended_def)
    have d1: "driverSteps (trace st') = Begin Always # X"
      and s1: "stagesOf st' = stagesAfter (Begin Always # X) ([], [])"
      using a(1) new by (simp_all add: stepped_def driverSteps_def)
    have "prefix X ((sequenceSteps ?pa @ [Complete Always, Drain]) @ [Resolve])"
      using a(2) by (rule prefix_prefix)
    then have "prefix (Begin Always # X) ?L"
      by simp
    then have "stepsOk (Begin Always # X) ([], [])"
      using stepsOk_prefix [OF stepsOk_resolved] by blast
    then show ?thesis using d1 s1 by simp
  next
    case resolved
    then obtain st1 st3 where a: "st' = emit ProtocolResolved st3"
      "stepped (Begin Always # sequenceSteps ?pa) (newState cache) st1"
      "stepped [Complete Always, Drain] st1 st3"
      by (auto simp: runResolved_def)
    have "stepped ((Begin Always # sequenceSteps ?pa) @ [Complete Always, Drain]) (newState cache) st3"
      using a(2,3) by (rule stepped_trans)
    then have d3: "driverSteps (trace st3) = Begin Always # sequenceSteps ?pa @ [Complete Always, Drain]"
      and s3: "stagesOf st3 = stagesAfter (Begin Always # sequenceSteps ?pa @ [Complete Always, Drain]) ([], [])"
      using new by (simp_all add: stepped_def driverSteps_def)
    have d': "driverSteps (trace st') = ?L"
      using a(1) d3 by (simp add: emit_def driverSteps_append) (simp add: driverSteps_def)
    have "stagesOf st' = stagesOf st3"
      using a(1) by (simp add: emit_def stagesOf_def)
    moreover have "stagesAfter ?L ([], []) =
        stagesAfter (Begin Always # sequenceSteps ?pa @ [Complete Always, Drain]) ([], [])"
      using stagesAfter_append [of "Begin Always # sequenceSteps ?pa @ [Complete Always, Drain]"
          "[Resolve]" "([], [])"]
      by (cases "stagesAfter (Begin Always # sequenceSteps ?pa @ [Complete Always, Drain]) ([], [])")
        simp
    ultimately show ?thesis using d' s3 stepsOk_resolved [of ?pa] by simp
  qed
  then show "stepsOk (driverSteps (trace st')) ([], [])"
    and "stagesAfter (driverSteps (trace st')) ([], []) = stagesOf st'"
    by simp_all
qed

lemma not_resolved:
  assumes "stepped (Begin Always # X) (newState cache) st1"
    and "prefix X (sequenceSteps pa @ [Complete Always, Drain])"
  shows "ProtocolResolved \<notin> set (trace st1)"
proof
  assume "ProtocolResolved \<in> set (trace st1)"
  then have "Resolve \<in> set (driverSteps (trace st1))"
    by (rule Resolve_in_steps)
  moreover have "driverSteps (trace st1) = Begin Always # X"
    using assms(1) by (simp add: stepped_def newState_def driverSteps_def)
  ultimately have "Resolve \<in> set X" by simp
  then have "Resolve \<in> set (sequenceSteps pa @ [Complete Always, Drain])"
    using set_mono_prefix [OF assms(2)] by blast
  then show False using Resolve_notin_sequenceSteps [of pa] by simp
qed

lemma sequenceSteps_True:
  "sequenceSteps True =
     [Begin LoadAssets, Execute LoadAssets, Complete LoadAssets, Drain,
      Begin CreateActors, Execute CreateActors, Complete CreateActors, Drain,
      Begin SetBehaviors, Execute SetBehaviors, Complete SetBehaviors, Drain,
      Begin CreateAnimations, Execute CreateAnimations, Complete CreateAnimations, Drain,
      Begin SyncAnimations, Execute SyncAnimations, Complete SyncAnimations, Drain]"
  by (simp add: sequenceSteps_def sequence_def stageSteps_def)

subsection \<open>Counting the \<open>sync-complete\<close> payloads\<close>

lemma noSyncComplete_append [simp]:
  "noSyncComplete (xs @ ys) = (noSyncComplete xs \<and> noSyncComplete ys)"
  by (simp add: noSyncComplete_def)

lemma noSyncComplete_Nil [simp]: "noSyncComplete []"
  by (simp add: noSyncComplete_def)

lemma noSyncComplete_Cons [simp]:
  "noSyncComplete (x # xs) = (\<not> isSyncComplete x \<and> noSyncComplete xs)"
  by (simp add: noSyncComplete_def)

lemma noSyncComplete_concat:
  "noSyncComplete (concat xss) = list_all noSyncComplete xss"
  by (induction xss) simp_all

lemma noSyncComplete_subset: "noSyncComplete ys \<Longrightarrow> set xs \<subseteq> set ys \<Longrightarrow> noSyncComplete xs"
  by (auto simp: noSyncComplete_def list_all_iff)

lemma keeps_refl: "keeps st st"
  by (simp add: keeps_def)

lemma keeps_trans: "keeps st st1 \<Longrightarrow> keeps st1 st2 \<Longrightarrow> keeps st st2"
  by (simp add: keeps_def)

lemma keeps_emit: "\<not> sentSyncComplete e \<Longrightarrow> keeps st (emit e st)"
  by (simp add: keeps_def emit_def pendingMessages_def syncCompletesSent_def)

lemma keeps_Protocol_sendMessage:
  "\<not> isSyncComplete m \<Longrightarrow> noSyncComplete (case p of None \<Rightarrow> [] | Some q \<Rightarrow> promiseMessages q) \<Longrightarrow>
   keeps st (Protocol_sendMessage m p st)"
  by (cases p)
    (simp_all add: keeps_def Protocol_sendMessage_def emit_def pendingMessages_def
      syncCompletesSent_def)

lemma keeps_queueMessage:
  "\<not> isSyncComplete m \<Longrightarrow> noSyncComplete (case p of None \<Rightarrow> [] | Some q \<Rightarrow> promiseMessages q) \<Longrightarrow>
   keeps st (queueMessage m p st)"
  by (simp add: keeps_def queueMessage_def pendingMessages_def)

lemma keeps_sendMessage:
  "\<not> isSyncComplete m \<Longrightarrow> noSyncComplete (case p of None \<Rightarrow> [] | Some q \<Rightarrow> promiseMessages q) \<Longrightarrow>
   keeps st (sendMessage c m p st)"
  by (cases "handlingForMessage c m st")
    (simp_all add: sendMessage_def keeps_Protocol_sendMessage keeps_queueMessage keeps_refl
      keeps_emit)

lemma keeps_fold:
  assumes "\<And>x st. x \<in> set xs \<Longrightarrow> keeps st (f x st)"
  shows "keeps st (fold f xs st)"
  using assms
proof (induction xs arbitrary: st)
  case Nil
  show ?case by (simp add: keeps_refl)
next
  case (Cons x xs)
  have "keeps st (f x st)" using Cons.prems by simp
  moreover have "keeps (f x st) (fold f xs (f x st))"
    using Cons.IH Cons.prems by simp
  ultimately show ?case using keeps_trans by simp
qed

lemma createMessages_children:
  "set (concat (map createMessages (childrenOf node))) \<subseteq> set (createMessages node)"
  by (cases node) auto

lemma createMessages_own:
  "created (nodeActor node) = Some cr \<Longrightarrow> message cr \<in> set (createMessages node)"
  by (cases node) auto

lemma keeps_createActorRecursive:
  assumes "noSyncComplete (createMessages node)"
  shows "keeps (fst sq) (fst (createActorRecursive node sq))"
proof (cases "hasCreateMessage node")
  case True
  then obtain cr where cr: "created (nodeActor node) = Some cr"
    by (auto simp: hasCreateMessage_def split: option.splits)
  have "\<not> isSyncComplete (message cr)"
    using assms createMessages_own [OF cr] by (auto simp: noSyncComplete_def list_all_iff)
  moreover have "noSyncComplete (promiseMessages (ResponsePromise (Some node)))"
    using noSyncComplete_subset [OF assms createMessages_children] by simp
  ultimately show ?thesis
    using True cr by (cases sq) (simp add: createActorRecursive_cases keeps_Protocol_sendMessage)
next
  case False
  then show ?thesis by (cases sq) (simp add: createActorRecursive_cases keeps_refl)
qed

lemma keeps_fold_createActorRecursive:
  "list_all (\<lambda>n. noSyncComplete (createMessages n)) cs \<Longrightarrow>
   keeps (fst sq) (fst (fold createActorRecursive cs sq))"
proof (induction cs arbitrary: sq)
  case Nil
  show ?case by (simp add: keeps_refl)
next
  case (Cons node cs)
  show ?case
    using keeps_trans [OF keeps_createActorRecursive [of node sq] Cons.IH [of "createActorRecursive node sq"]]
      Cons.prems
    by simp
qed

lemma cleanChildren_if: "noSyncComplete (createMessages node) \<Longrightarrow> cleanChildren node"
  by (cases node) (simp add: cleanChildren_def noSyncComplete_concat list_all_iff)

lemma keeps_runMicrotasks:
  "list_all cleanChildren q \<Longrightarrow> keeps st (runMicrotasks q st)"
proof (induction q st rule: runMicrotasks.induct)
  case (1 st)
  show ?case by (simp add: keeps_refl)
next
  case (2 node q st)
  show ?case
  proof (cases "created (nodeActor node)")
    case None
    have "keeps st (st\<lparr>stalled := True\<rparr>)"
      by (simp add: keeps_def pendingMessages_def)
    with 2(1) [OF None] 2(3) None keeps_trans show ?thesis by simp
  next
    case (Some cr)
    obtain st1 q1 where f: "fold createActorRecursive (childrenOf node) (st, q) = (st1, q1)"
      by (cases "fold createActorRecursive (childrenOf node) (st, q)")
    have cc: "list_all (\<lambda>n. noSyncComplete (createMessages n)) (childrenOf node)"
      using 2(3) by (simp add: cleanChildren_def)
    have k1: "keeps st st1"
      using keeps_fold_createActorRecursive [OF cc, of "(st, q)"] f by simp
    have "q1 = q @ filter (\<lambda>n. \<not> hasCreateMessage n) (childrenOf node)"
      using snd_fold_createActorRecursive [of "childrenOf node" st q] f by simp
    then have "list_all cleanChildren q1"
      using 2(3) cc by (auto simp: list_all_iff cleanChildren_if)
    then have "keeps st1 (runMicrotasks q1 st1)"
      using 2(2) [OF Some f [symmetric]] by simp
    with k1 show ?thesis using Some f keeps_trans by simp
  qed
qed


lemma keeps_forget: "keeps st (forget n st)"
  by (auto simp: keeps_def forget_def pendingMessages_def noSyncComplete_concat list_all_iff)

lemma keeps_responseArrived: "keeps st (responseArrived c r st)"
  by (simp add: responseArrived_def keeps_emit keeps_refl)

lemma sync_animations_not_complete: "\<not> isSyncComplete \<lparr>payload = SyncAnimationsReply xs\<rparr>"
  by (simp add: isSyncComplete_def)

lemma keeps_Protocol_sendPayload:
  "\<not> isSyncComplete \<lparr>payload = pl\<rparr> \<Longrightarrow> keeps st (Protocol_sendPayload pl st)"
  by (simp add: Protocol_sendPayload_def keeps_Protocol_sendMessage)

lemma keeps_animationsArrived: "keeps st (animationsArrived c xs st)"
proof -
  let ?st1 = "Protocol_sendPayload (SyncAnimationsReply (map (adjustTime c) xs)) st"
  have "keeps st ?st1"
    by (rule keeps_Protocol_sendPayload) (rule sync_animations_not_complete)
  moreover have "keeps ?st1 (?st1\<lparr>syncAnimationsRequest := RequestResolved\<rparr>)"
    by (simp add: keeps_def pendingMessages_def)
  ultimately show ?thesis
    unfolding animationsArrived_def by (rule keeps_trans)
qed

lemma pending_promise_clean:
  assumes "noSyncComplete (pendingMessages st)"
    and "map_of (promises st) n = Some (ResponsePromise (Some node))"
  shows "cleanChildren node"
proof -
  have "(n, ResponsePromise (Some node)) \<in> set (promises st)"
    using assms(2) by (rule map_of_SomeD)
  then have "noSyncComplete (promiseMessages (ResponsePromise (Some node)))"
    using assms(1) by (force simp: pendingMessages_def noSyncComplete_concat list_all_iff)
  then show ?thesis
    by (simp add: cleanChildren_def noSyncComplete_concat list_all_iff)
qed

lemma keeps_deliver:
  assumes "noSyncComplete (appMessage e)"
  shows "keeps st (deliver c e st)"
proof (cases e)
  case (ReplyArrives n r)
  have a: "keeps st (emit (Received n r) (forget n st))"
    by (rule keeps_trans [OF keeps_forget keeps_emit]) simp
  have a2: "keeps st (emit (CallerResolved k v) (emit (Received n r) (forget n st)))" for k v
    by (rule keeps_trans [OF a keeps_emit]) simp
  have b: "keeps st (responseArrived c r (emit (Received n r) (forget n st)))"
    using keeps_trans [OF a keeps_responseArrived] .
  show ?thesis
  proof (cases "map_of (promises st) n")
    case None
    then show ?thesis using ReplyArrives by (simp add: keeps_refl)
  next
    case (Some p)
    show ?thesis
    proof (cases p)
      case (CallerPromise k)
      then show ?thesis using ReplyArrives Some a2 by simp
    next
      case (ResponsePromise awaiting)
      show ?thesis
      proof (cases awaiting)
        case None
        then show ?thesis using ReplyArrives Some ResponsePromise b by simp
      next
        case (Some node)
        let ?st1 = "responseArrived c r (emit (Received n r) (forget n st))"
        have d: "deliver c e st = runMicrotasks [node] ?st1"
          using ReplyArrives \<open>map_of (promises st) n = Some p\<close> ResponsePromise Some
          by (simp del: runMicrotasks.simps)
        show ?thesis
          unfolding keeps_def
        proof
          assume clean: "noSyncComplete (pendingMessages st)"
          have cc: "cleanChildren node"
            using pending_promise_clean [OF clean] \<open>map_of (promises st) n = Some p\<close>
              ResponsePromise Some by simp
          have "keeps ?st1 (runMicrotasks [node] ?st1)"
            by (rule keeps_runMicrotasks) (simp add: cc)
          from keeps_trans [OF b this] clean
          show "noSyncComplete (pendingMessages (deliver c e st)) \<and>
              syncCompletesSent (trace (deliver c e st)) = syncCompletesSent (trace st)"
            unfolding d by (simp add: keeps_def)
        qed
      qed
    qed
  qed
next
  case (ReplyFails n)
  have a: "keeps st ((forget n st)\<lparr>stalled := True\<rparr>)"
    by (auto simp: keeps_def forget_def pendingMessages_def noSyncComplete_concat list_all_iff)
  have b: "keeps st ((forget n st)\<lparr>failedReplies := failedReplies st @ [n]\<rparr>)"
    by (auto simp: keeps_def forget_def pendingMessages_def noSyncComplete_concat list_all_iff)
  have c: "keeps st (emit (CallerRejected k) (forget n st))" for k
    by (rule keeps_trans [OF keeps_forget keeps_emit]) simp
  show ?thesis
    using ReplyFails a b c
    by (simp add: keeps_refl split: option.splits ExportedPromise.splits)
next
  case (AnimationsArrive xs)
  then show ?thesis by (simp add: keeps_refl keeps_animationsArrived)
next
  case AnimationsFail
  then show ?thesis by (simp add: keeps_def pendingMessages_def)
next
  case (AppSends m p)
  then show ?thesis
    using assms by (cases p) (simp_all add: keeps_sendMessage)
qed

lemma keeps_await:
  "noSyncComplete (appMessages es) \<Longrightarrow> keeps st (snd (snd (await c w es st)))"
proof (induction es arbitrary: st)
  case Nil
  show ?case by (simp add: keeps_refl)
next
  case (Cons e es)
  have "keeps st (deliver c e st)"
    using Cons.prems by (intro keeps_deliver) (simp add: appMessages_def)
  moreover have "keeps (deliver c e st) (snd (snd (await c w es (deliver c e st))))"
    using Cons.prems by (intro Cons.IH) (simp add: appMessages_def)
  ultimately show ?case
    using keeps_trans by (simp add: keeps_refl)
qed

lemma await_suffix: "suffix (fst (snd (await c w es st))) es"
proof (induction es arbitrary: st)
  case Nil
  show ?case by simp
next
  case (Cons e es)
  show ?case using Cons.IH [of "deliver c e st"] by (simp add: suffix_Cons)
qed

lemma appMessages_suffix:
  "suffix es' es \<Longrightarrow> noSyncComplete (appMessages es) \<Longrightarrow> noSyncComplete (appMessages es')"
  by (auto simp: suffix_def appMessages_def)


lemma keeps_mapState:
  assumes "\<And>x st. x \<in> set xs \<Longrightarrow> keeps st (snd (f x st))"
  shows "keeps st (snd (mapState f xs st))"
  using assms
proof (induction xs arbitrary: st)
  case Nil
  show ?case by (simp add: keeps_refl)
next
  case (Cons x xs)
  have e: "snd (mapState f (x # xs) st) = snd (mapState f xs (snd (f x st)))"
    by (simp split: prod.splits)
  have "keeps st (snd (f x st))" using Cons.prems by simp
  moreover have "keeps (snd (f x st)) (snd (mapState f xs (snd (f x st))))"
    using Cons.IH Cons.prems by simp
  ultimately show ?case unfolding e by (rule keeps_trans)
qed

lemma keeps_sendAndExpectResponse:
  "\<not> isSyncComplete m \<Longrightarrow> keeps st (snd (sendAndExpectResponse m None st))"
  by (simp add: sendAndExpectResponse_def keeps_Protocol_sendMessage)

lemma cachedMessages_assets:
  "noSyncComplete (cachedMessages c) \<Longrightarrow> m \<in> set (assets (session c)) \<Longrightarrow> \<not> isSyncComplete m"
  by (simp add: cachedMessages_def noSyncComplete_def [of "assets (session c)"] list_all_iff)

lemma cachedMessages_updates:
  "noSyncComplete (cachedMessages c) \<Longrightarrow> pl \<in> set (assetUpdates (session c)) \<Longrightarrow>
   \<not> isSyncComplete \<lparr>payload = pl\<rparr>"
  by (simp add: cachedMessages_def noSyncComplete_def [of "map f xs" for f xs] list_all_iff)

lemma cachedMessages_roots:
  "noSyncComplete (cachedMessages c) \<Longrightarrow>
   list_all (\<lambda>n. noSyncComplete (createMessages n)) (rootActors (session c))"
  by (simp add: cachedMessages_def noSyncComplete_concat list_all_iff)

lemma cachedMessages_animations:
  assumes "noSyncComplete (cachedMessages c)" and "a \<in> set (actors (session c))"
    and "ca \<in> set (case createdAnimations a of None \<Rightarrow> [] | Some l \<Rightarrow> l)"
  shows "\<not> isSyncComplete (animationMessage ca)"
proof -
  have "list_all (\<lambda>a. noSyncComplete (map animationMessage
          (case createdAnimations a of None \<Rightarrow> [] | Some l \<Rightarrow> l))) (actors (session c))"
    using assms(1) by (simp add: cachedMessages_def noSyncComplete_concat list_all_iff)
  then have "noSyncComplete (map animationMessage
          (case createdAnimations a of None \<Rightarrow> [] | Some l \<Rightarrow> l))"
    using assms(2) by (simp add: list_all_iff)
  then have "list_all (\<lambda>ca. \<not> isSyncComplete (animationMessage ca))
          (case createdAnimations a of None \<Rightarrow> [] | Some l \<Rightarrow> l)"
    unfolding noSyncComplete_def by (simp add: list_all_iff)
  then show ?thesis
    using assms(3) unfolding list_all_iff by blast
qed

lemmas cachedMessages_parts =
  cachedMessages_assets cachedMessages_updates cachedMessages_roots cachedMessages_animations

lemma keeps_stage_load_assets:
  assumes "noSyncComplete (cachedMessages c)" and "noSyncComplete (appMessages es)"
  shows "keeps st (snd (snd (stage_load_assets c es st)))"
proof -
  obtain ps st1 where m: "mapState (\<lambda>m. sendAndExpectResponse m None) (assets (session c)) st = (ps, st1)"
    by (cases "mapState (\<lambda>m. sendAndExpectResponse m None) (assets (session c)) st")
  let ?w = "RepliesTo (awaitedBy (Promise_all (map (\<lambda>n. PromiseOf [n]) ps)))"
  obtain out es2 st2 where a: "await c ?w es st1 = (out, es2, st2)"
    by (cases "await c ?w es st1")
  have 1: "keeps st st1"
    using keeps_mapState [of "assets (session c)" "\<lambda>m. sendAndExpectResponse m None" st] m
      cachedMessages_parts(1) [OF assms(1)]
    by (simp add: keeps_sendAndExpectResponse)
  have 2: "keeps st1 st2"
    using keeps_await [OF assms(2), of st1 c ?w] a by simp
  have 3: "keeps st2 (fold (\<lambda>pl. sendMessage c \<lparr>payload = pl\<rparr> None) (assetUpdates (session c)) st2)"
    using cachedMessages_parts(2) [OF assms(1)]
    by (intro keeps_fold) (simp add: keeps_sendMessage)
  show ?thesis
    using keeps_trans [OF 1 2] keeps_trans [OF keeps_trans [OF 1 2] 3] m a
    by (cases out) (simp_all add: stage_load_assets_def)
qed

lemma stage_load_assets_suffix: "suffix (fst (snd (stage_load_assets c es st))) es"
proof -
  obtain ps st1 where m: "mapState (\<lambda>m. sendAndExpectResponse m None) (assets (session c)) st = (ps, st1)"
    by (cases "mapState (\<lambda>m. sendAndExpectResponse m None) (assets (session c)) st")
  let ?w = "RepliesTo (awaitedBy (Promise_all (map (\<lambda>n. PromiseOf [n]) ps)))"
  obtain out es2 st2 where a: "await c ?w es st1 = (out, es2, st2)"
    by (cases "await c ?w es st1")
  have "suffix es2 es"
    using await_suffix [of c ?w es st1] a by simp
  then show ?thesis
    using m a by (cases out) (simp_all add: stage_load_assets_def)
qed

lemma keeps_stage_create_actors:
  assumes "noSyncComplete (cachedMessages c)" and "noSyncComplete (appMessages es)"
  shows "keeps st (snd (snd (stage_create_actors c es st)))"
proof -
  obtain st1 q where f: "fold createActorRecursive (rootActors (session c)) (st, []) = (st1, q)"
    by (cases "fold createActorRecursive (rootActors (session c)) (st, [])")
  have roots: "list_all (\<lambda>n. noSyncComplete (createMessages n)) (rootActors (session c))"
    using cachedMessages_parts(3) [OF assms(1)] .
  have 1: "keeps st st1"
    using keeps_fold_createActorRecursive [OF roots, of "(st, [])"] f by simp
  have "q = filter (\<lambda>n. \<not> hasCreateMessage n) (rootActors (session c))"
    using snd_fold_createActorRecursive [of "rootActors (session c)" st "[]"] f by simp
  then have "list_all cleanChildren q"
    using roots by (auto simp: list_all_iff cleanChildren_if)
  then have 2: "keeps st1 (runMicrotasks q st1)"
    by (rule keeps_runMicrotasks)
  have 3: "keeps (runMicrotasks q st1) (snd (snd (await c ActorsCreated es (runMicrotasks q st1))))"
    using assms(2) by (rule keeps_await)
  show ?thesis
    using keeps_trans [OF 1 keeps_trans [OF 2 3]] f by (simp add: stage_create_actors_def)
qed

lemma stage_create_actors_suffix: "suffix (fst (snd (stage_create_actors c es st))) es"
  by (simp add: stage_create_actors_def await_suffix split: prod.splits)

lemma keeps_createActorBehavior: "keeps st (createActorBehavior actor st)"
  by (simp add: createActorBehavior_def keeps_refl keeps_Protocol_sendPayload isSyncComplete_def
      split: option.splits)

lemma keeps_stage_set_behaviors: "keeps st (snd (snd (stage_set_behaviors c es st)))"
  by (simp add: stage_set_behaviors_def keeps_fold keeps_createActorBehavior)

lemma keeps_forwardInterpolation: "keeps st (forwardInterpolation a st)"
proof (cases "a < length (objects st)")
  case True
  let ?copy = "(objects st ! a)\<lparr>enabled := False\<rparr>"
  have "keeps st (st\<lparr>objects := objects st @ [?copy]\<rparr>)"
    by (simp add: keeps_def pendingMessages_def)
  moreover have "keeps (st\<lparr>objects := objects st @ [?copy]\<rparr>)
      (Protocol_sendPayload (Interpolate ?copy) (st\<lparr>objects := objects st @ [?copy]\<rparr>))"
    by (rule keeps_Protocol_sendPayload) (simp add: isSyncComplete_def)
  ultimately show ?thesis
    using True keeps_trans by (simp add: forwardInterpolation_def Let_def)
next
  case False
  then show ?thesis by (simp add: forwardInterpolation_def keeps_refl)
qed

lemma keeps_createActorInterpolations: "keeps st (createActorInterpolations actor st)"
  by (simp add: createActorInterpolations_def keeps_fold keeps_forwardInterpolation)

lemma keeps_createActorAnimations:
  assumes "\<And>ca. ca \<in> set (case createdAnimations actor of None \<Rightarrow> [] | Some l \<Rightarrow> l) \<Longrightarrow>
             \<not> isSyncComplete (animationMessage ca)"
  shows "keeps st (snd (createActorAnimations actor st))"
proof -
  let ?f = "\<lambda>createdAnimation. sendAndExpectResponse (animationMessage createdAnimation) None"
  let ?xs = "case createdAnimations actor of None \<Rightarrow> [] | Some l \<Rightarrow> l"
  obtain ps st1 where m: "mapState ?f ?xs st = (ps, st1)"
    by (cases "mapState ?f ?xs st")
  have "keeps st st1"
    using keeps_mapState [of ?xs ?f st] m assms
    by (simp add: keeps_sendAndExpectResponse)
  then show ?thesis using m by (simp add: createActorAnimations_def)
qed

lemma keeps_stage_create_animations:
  assumes "noSyncComplete (cachedMessages c)" and "noSyncComplete (appMessages es)"
  shows "keeps st (snd (snd (stage_create_animations c es st)))"
proof -
  let ?st1 = "fold createActorInterpolations (actors (session c)) st"
  obtain vs st2 where m: "mapState createActorAnimations (actors (session c)) ?st1 = (vs, st2)"
    by (cases "mapState createActorAnimations (actors (session c)) ?st1")
  have 1: "keeps st ?st1"
    by (rule keeps_fold) (rule keeps_createActorInterpolations)
  have each: "keeps s (snd (createActorAnimations x s))" if "x \<in> set (actors (session c))" for x s
  proof (rule keeps_createActorAnimations)
    fix ca
    assume "ca \<in> set (case createdAnimations x of None \<Rightarrow> [] | Some l \<Rightarrow> l)"
    with assms(1) that show "\<not> isSyncComplete (animationMessage ca)"
      by (rule cachedMessages_animations)
  qed
  have "keeps ?st1 (snd (mapState createActorAnimations (actors (session c)) ?st1))"
    by (rule keeps_mapState) (rule each)
  then have 2: "keeps ?st1 st2"
    using m by simp
  have 3: "keeps st2 (snd (snd (await c (RepliesTo (awaitedBy (Promise_all [ArrayOf vs]))) es st2)))"
    using assms(2) by (rule keeps_await)
  show ?thesis
    using keeps_trans [OF keeps_trans [OF 1 2] 3] m
    by (simp add: stage_create_animations_def Let_def)
qed

lemma stage_create_animations_suffix: "suffix (fst (snd (stage_create_animations c es st))) es"
  by (simp add: stage_create_animations_def Let_def await_suffix split: prod.splits)

lemma keeps_stage_sync_animations:
  assumes "noSyncComplete (appMessages es)"
  shows "keeps st (snd (snd (stage_sync_animations c es st)))"
proof -
  let ?st1 = "(emit (AuthoritativeSent SyncAnimationsRequest) st)\<lparr>syncAnimationsRequest := Requested\<rparr>"
  have "keeps st ?st1"
    by (simp add: keeps_def emit_def pendingMessages_def syncCompletesSent_def)
  from keeps_trans [OF this keeps_await [OF assms]]
  show ?thesis by (simp add: stage_sync_animations_def keeps_refl)
qed

lemma stage_sync_animations_suffix: "suffix (fst (snd (stage_sync_animations c es st))) es"
  by (simp add: stage_sync_animations_def await_suffix)

lemma keeps_executeStage:
  assumes "noSyncComplete (cachedMessages c)" and "noSyncComplete (appMessages es)"
  shows "keeps st (snd (snd (executeStage c s es st)))"
proof -
  have e: "keeps st (emit (StageExecuted s) st)"
    by (rule keeps_emit) simp
  have n: "keeps (emit (StageExecuted s) st) (emit (Console (NoHandler s)) (emit (StageExecuted s) st))"
    by (rule keeps_emit) simp
  show ?thesis
  proof (cases s)
    case LoadAssets
    then show ?thesis using keeps_trans [OF e keeps_stage_load_assets [OF assms]] by simp
  next
    case CreateActors
    then show ?thesis using keeps_trans [OF e keeps_stage_create_actors [OF assms]] by simp
  next
    case SetBehaviors
    then show ?thesis using keeps_trans [OF e keeps_stage_set_behaviors] by simp
  next
    case CreateAnimations
    then show ?thesis using keeps_trans [OF e keeps_stage_create_animations [OF assms]] by simp
  next
    case SyncAnimations
    then show ?thesis using keeps_trans [OF e keeps_stage_sync_animations [OF assms(2)]] by simp
  next
    case Always
    then show ?thesis using keeps_trans [OF e n] by simp
  next
    case Never
    then show ?thesis using keeps_trans [OF e n] by simp
  qed
qed

lemma executeStage_suffix: "suffix (fst (snd (executeStage c s es st))) es"
  by (cases s)
    (simp_all add: stage_load_assets_suffix stage_create_actors_suffix stage_set_behaviors_def
      stage_create_animations_suffix stage_sync_animations_suffix)


lemma keeps_sendQueuedLoop:
  "noSyncComplete (appMessages es) \<Longrightarrow> keeps st (snd (snd (sendQueuedLoop c es st)))"
proof (induction c es st rule: sendQueuedLoop.induct)
  case (1 c es st)
  obtain queued st1 where f: "filterQueuedMessages (allowedNow c st) st = (queued, st1)"
    by (cases "filterQueuedMessages (allowedNow c st) st")
  have q: "queued = filter (allowedNow c st) (queuedMessages st)"
    and st1: "st1 = st\<lparr>queuedMessages := filter (\<lambda>qm. \<not> allowedNow c st qm) (queuedMessages st)\<rparr>"
    using f by (auto simp: filterQueuedMessages_def)
  have 1: "keeps st st1"
    unfolding st1 by (auto simp: keeps_def pendingMessages_def noSyncComplete_concat list_all_iff)
  show ?case
  proof (cases "queued = []")
    case True
    then show ?thesis using f 1 by (simp add: sendQueuedLoop.simps [of c es st])
  next
    case False
    let ?sent = "fold (\<lambda>queuedMessage. sendMessage c (fst queuedMessage) (snd queuedMessage)) queued st1"
    obtain out es2 st2 where a: "await c AllReplies es ?sent = (out, es2, st2)"
      by (cases "await c AllReplies es ?sent")
    have 2: "keeps st ?sent"
      unfolding keeps_def
    proof
      assume clean: "noSyncComplete (pendingMessages st)"
      have each: "\<not> isSyncComplete (fst qm) \<and>
          noSyncComplete (case snd qm of None \<Rightarrow> [] | Some p \<Rightarrow> promiseMessages p)"
        if "qm \<in> set queued" for qm
        using clean that q
        by (auto simp: pendingMessages_def noSyncComplete_concat list_all_iff)
      have "keeps st1 ?sent"
        by (rule keeps_fold) (simp add: each keeps_sendMessage)
      from keeps_trans [OF 1 this] clean
      show "noSyncComplete (pendingMessages ?sent) \<and>
          syncCompletesSent (trace ?sent) = syncCompletesSent (trace st)"
        by (simp add: keeps_def)
    qed
    have 3: "keeps ?sent st2"
      using keeps_await [OF "1.prems", of ?sent c AllReplies] a by simp
    have 4: "keeps st st2"
      using 2 3 by (rule keeps_trans)
    have "suffix es2 es"
      using await_suffix [of c AllReplies es ?sent] a by simp
    then have es2: "noSyncComplete (appMessages es2)"
      using "1.prems" by (rule appMessages_suffix)
    show ?thesis
    proof (cases out)
      case Returned
      have "keeps st2 (snd (snd (sendQueuedLoop c es2 st2)))"
        using "1.IH" [OF f [symmetric] False a [symmetric] Returned refl es2] by simp
      from keeps_trans [OF 4 this] show ?thesis
        using f False a Returned
        by (simp add: sendQueuedLoop.simps [of c es st])
    next
      case Threw
      then show ?thesis using f False a 4
        by (simp add: sendQueuedLoop.simps [of c es st])
    next
      case Suspended
      then show ?thesis using f False a 4
        by (simp add: sendQueuedLoop.simps [of c es st])
    qed
  qed
qed

lemma sendQueuedLoop_suffix: "suffix (fst (snd (sendQueuedLoop c es st))) es"
proof (induction c es st rule: sendQueuedLoop.induct)
  case (1 c es st)
  obtain queued st1 where f: "filterQueuedMessages (allowedNow c st) st = (queued, st1)"
    by (cases "filterQueuedMessages (allowedNow c st) st")
  show ?case
  proof (cases "queued = []")
    case True
    then show ?thesis using f by (simp add: sendQueuedLoop.simps [of c es st])
  next
    case False
    let ?sent = "fold (\<lambda>queuedMessage. sendMessage c (fst queuedMessage) (snd queuedMessage)) queued st1"
    obtain out es2 st2 where a: "await c AllReplies es ?sent = (out, es2, st2)"
      by (cases "await c AllReplies es ?sent")
    have s: "suffix es2 es"
      using await_suffix [of c AllReplies es ?sent] a by simp
    show ?thesis
    proof (cases out)
      case Returned
      have "suffix (fst (snd (sendQueuedLoop c es2 st2))) es2"
        using "1.IH" [OF f [symmetric] False a [symmetric] Returned refl] by simp
      from suffix_order.trans [OF this s] show ?thesis
        using f False a Returned
        by (simp add: sendQueuedLoop.simps [of c es st])
    next
      case Threw
      then show ?thesis using f False a s
        by (simp add: sendQueuedLoop.simps [of c es st])
    next
      case Suspended
      then show ?thesis using f False a s
        by (simp add: sendQueuedLoop.simps [of c es st])
    qed
  qed
qed

lemma keeps_sendQueuedMessages:
  assumes "noSyncComplete (appMessages es)"
  shows "keeps st (snd (snd (sendQueuedMessages c es st)))"
proof -
  have "keeps st (emit QueueDrained st)"
    by (rule keeps_emit) simp
  from keeps_trans [OF this keeps_sendQueuedLoop [OF assms]]
  show ?thesis by (simp add: sendQueuedMessages_def)
qed

lemma sendQueuedMessages_suffix: "suffix (fst (snd (sendQueuedMessages c es st))) es"
  by (simp add: sendQueuedMessages_def sendQueuedLoop_suffix)

lemma keeps_beginStage: "keeps st (beginStage s st)"
  by (simp add: keeps_def beginStage_def emit_def pendingMessages_def syncCompletesSent_def)

lemma keeps_completeStage: "keeps st (completeStage s st)"
  by (simp add: keeps_def completeStage_def emit_def pendingMessages_def syncCompletesSent_def)

lemma keeps_runSequence:
  assumes "noSyncComplete (cachedMessages c)"
  shows "noSyncComplete (appMessages es) \<Longrightarrow>
    keeps st (snd (snd (runSequence c ss es st))) \<and> suffix (fst (snd (runSequence c ss es st))) es"
proof (induction ss arbitrary: es st)
  case Nil
  show ?case by (simp add: keeps_refl)
next
  case (Cons s ss)
  obtain o1 es1 st1 where e: "executeStage c s es (beginStage s st) = (o1, es1, st1)"
    by (cases "executeStage c s es (beginStage s st)")
  have 1: "keeps st st1"
    using keeps_trans [OF keeps_beginStage keeps_executeStage [OF assms Cons.prems, of "beginStage s st" s]] e
    by simp
  have s1: "suffix es1 es"
    using executeStage_suffix [of c s es "beginStage s st"] e by simp
  then have es1: "noSyncComplete (appMessages es1)"
    using Cons.prems by (rule appMessages_suffix)
  show ?case
  proof (cases "o1 = Returned")
    case False
    then show ?thesis using e 1 s1 by (cases o1) simp_all
  next
    case True
    obtain o2 es2 st2 where d: "sendQueuedMessages c es1 (completeStage s st1) = (o2, es2, st2)"
      by (cases "sendQueuedMessages c es1 (completeStage s st1)")
    have 2: "keeps st st2"
      using keeps_trans [OF 1 keeps_trans [OF keeps_completeStage
            keeps_sendQueuedMessages [OF es1, of "completeStage s st1" c]]] d
      by simp
    have s2: "suffix es2 es"
      using suffix_order.trans [OF sendQueuedMessages_suffix [of c es1 "completeStage s st1"] s1] d
      by simp
    then have es2: "noSyncComplete (appMessages es2)"
      using Cons.prems by (rule appMessages_suffix)
    show ?thesis
    proof (cases "o2 = Returned")
      case False
      then show ?thesis using e d True 2 s2 by (cases o2) simp_all
    next
      case o2: True
      have r: "runSequence c (s # ss) es st = runSequence c ss es2 st2"
        using e d True o2 by simp
      show ?thesis
        unfolding r
        using Cons.IH [OF es2, of st2] keeps_trans [OF 2] suffix_order.trans [OF _ s2]
        by blast
    qed
  qed
qed

lemma syncComplete_counted:
  assumes "runResolved c es (newState cache) st'"
    and "handlingForMessage c \<lparr>payload = SyncComplete\<rparr> st' = Allow"
  shows "\<exists>before k after.
        trace st' = before @ [StageCompleted Always, Sent k \<lparr>payload = SyncComplete\<rparr> None,
                              QueueDrained] @ after @ [ProtocolResolved] \<and>
        driverSteps before = Begin Always # sequenceSteps (peerAuthoritative (session c)) \<and>
        driverSteps after = [] \<and>
        (noSyncComplete (cachedMessages c @ appMessages es) \<longrightarrow>
           syncCompletesSent (trace st') = 1)"
proof -
  let ?pa = "peerAuthoritative (session c)"
  let ?SC = "\<lparr>payload = SyncComplete\<rparr>"
  obtain es1 st1 es3 st3 where
    r: "(if ?pa then runSequence c sequence es (beginStage Always (newState cache))
         else (Returned, es, beginStage Always (newState cache))) = (Returned, es1, st1)"
    and d: "sendQueuedMessages c es1 (sendMessage c ?SC None (completeStage Always st1))
            = (Returned, es3, st3)"
    and st': "st' = emit ProtocolResolved st3"
    and s1: "stepped (Begin Always # sequenceSteps ?pa) (newState cache) st1"
    using assms(1) unfolding runResolved_def by blast
  let ?stc = "completeStage Always st1"
  let ?st2 = "sendMessage c ?SC None ?stc"
  have q: "quiet (emit QueueDrained ?st2) st3"
    using quiet_sendQueuedLoop [of "emit QueueDrained ?st2" c es1] d
    by (simp add: sendQueuedMessages_def)
  have w: "withinStage c ?stc ?st2"
    by (rule withinStage_sendMessage)
  have "inProgressStages st' = inProgressStages ?stc" "completedStages st' = completedStages ?stc"
    using q w by (simp_all add: st' quiet_def withinStage_def emit_def)
  then have "handlingForMessage c ?SC st' = handlingForMessage c ?SC ?stc"
    by (rule handlingForMessage_stages)
  then have st2: "?st2 = Protocol_sendMessage ?SC None ?stc"
    using assms(2) by (simp add: sendMessage_def)
  have t2: "trace ?st2 = trace st1 @ [StageCompleted Always, Sent (nextId st1) ?SC None]"
    unfolding st2 by (simp add: Protocol_sendMessage_def completeStage_def emit_def)
  obtain ext where ext: "trace st3 = trace (emit QueueDrained ?st2) @ ext" "driverSteps ext = []"
    using q by (rule quiet_ext)
  have tr: "trace st' = trace st1 @ [StageCompleted Always, Sent (nextId st1) ?SC None,
        QueueDrained] @ ext @ [ProtocolResolved]"
    using ext(1) t2 by (simp add: st' emit_def)
  have d1: "driverSteps (trace st1) = Begin Always # sequenceSteps ?pa"
    using s1 by (simp add: stepped_def newState_def driverSteps_def)
  have count: "syncCompletesSent (trace st') = 1"
    if clean: "noSyncComplete (cachedMessages c @ appMessages es)"
  proof -
    have cc: "noSyncComplete (cachedMessages c)" and ce: "noSyncComplete (appMessages es)"
      using clean by simp_all
    have k1: "keeps (newState cache) st1 \<and> suffix es1 es"
    proof (cases ?pa)
      case True
      show ?thesis
        using keeps_runSequence [OF cc ce, of "beginStage Always (newState cache)" sequence]
          keeps_trans [OF keeps_beginStage [of "newState cache" Always]] r True
        by simp
    next
      case False
      then show ?thesis using r keeps_beginStage [of "newState cache" Always] by auto
    qed
    have new: "noSyncComplete (pendingMessages (newState cache))"
      "syncCompletesSent (trace (newState cache)) = 0"
      by (simp_all add: newState_def pendingMessages_def syncCompletesSent_def)
    have kc: "keeps (newState cache) ?stc"
      using k1 keeps_completeStage by (blast intro: keeps_trans)
    then have c1: "noSyncComplete (pendingMessages ?stc)" "syncCompletesSent (trace ?stc) = 0"
      using new by (simp_all add: keeps_def)
    have c2: "noSyncComplete (pendingMessages ?st2)" "syncCompletesSent (trace ?st2) = 1"
      unfolding st2 using c1
      by (simp_all add: Protocol_sendMessage_def emit_def pendingMessages_def syncCompletesSent_def
          isSyncComplete_def)
    have "noSyncComplete (appMessages es1)"
      using k1 ce appMessages_suffix by blast
    then have "keeps ?st2 st3"
      using keeps_sendQueuedMessages [of es1 ?st2 c] d by simp
    then have "syncCompletesSent (trace st3) = 1"
      using c2 by (simp add: keeps_def)
    then show ?thesis
      by (simp add: st' emit_def syncCompletesSent_def)
  qed
  show ?thesis
    using tr d1 ext(2) count by blast
qed


subsection \<open>Evaluating the examples\<close>

lemma example_run:
  "fst (run exampleClient exampleArrivals (newState exampleObjects)) = Returned"
  "trace (snd (snd (run exampleClient exampleArrivals (newState exampleObjects)))) =
     [StageBegun Always,
      StageBegun LoadAssets, StageExecuted LoadAssets,
      Sent 0 loadX (Some (ResponsePromise None)), Received 0 reply,
      Sent 1 \<lparr>payload = OtherPayload (Some ''asset-update'')\<rparr> None,
      StageCompleted LoadAssets, QueueDrained,
      StageBegun CreateActors, StageExecuted CreateActors,
      Sent 2 createA (Some (ResponsePromise (Some (ActorNode actorA [ActorNode actorB []])))),
      Received 2 reply,
      Sent 3 createB (Some (ResponsePromise (Some (ActorNode actorB [])))),
      Received 3 reply,
      StageCompleted CreateActors, QueueDrained,
      StageBegun SetBehaviors, StageExecuted SetBehaviors,
      Sent 4 \<lparr>payload = SetBehavior ''button'' (Some ''A'')\<rparr> None,
      StageCompleted SetBehaviors, QueueDrained,
      StageBegun CreateAnimations, StageExecuted CreateAnimations,
      Sent 5 \<lparr>payload = Interpolate
        \<lparr>interpolatedActorId = ''A'', animationName = ''spin'', enabled = False\<rparr>\<rparr> None,
      Sent 6 createAnimationA (Some (ResponsePromise None)),
      StageCompleted CreateAnimations, QueueDrained,
      StageBegun SyncAnimations, StageExecuted SyncAnimations,
      AuthoritativeSent SyncAnimationsRequest, Received 6 reply,
      Sent 7 \<lparr>payload = SyncAnimationsReply []\<rparr> None,
      StageCompleted SyncAnimations, QueueDrained,
      StageCompleted Always, Sent 8 \<lparr>payload = SyncComplete\<rparr> None, QueueDrained,
      ProtocolResolved]"
  by code_simp+

lemma example_run_single_authority:
  "trace (snd (snd (run (exampleClient\<lparr>session := exampleSession\<lparr>peerAuthoritative := False\<rparr>\<rparr>) []
      (newState exampleObjects)))) =
     [StageBegun Always, StageCompleted Always, Sent 0 \<lparr>payload = SyncComplete\<rparr> None,
      QueueDrained, ProtocolResolved]"
  by code_simp

subsection \<open>The stage machine in a run\<close>

text \<open>
  C7. In every run of the driver from a new protocol object, whatever arrives and however
  the run ends: the stage sets of the object are the ones that the driver's steps in the
  trace lead to; after each of these steps the sets \<open>inProgress\<close> and \<open>completed\<close> are
  disjoint; each step leaves the status of a stage as it is or moves it from absent to in
  progress or from in progress to complete; and the set of complete stages only grows.
\<close>

theorem stage_sets_during_run:
  assumes "run c es (newState cache) = (out, es', st')"
  shows "stagesAfter (driverSteps (trace st')) ([], []) = (inProgressStages st', completedStages st') \<and>
    (\<forall>steps. prefix steps (driverSteps (trace st')) \<longrightarrow>
       set (fst (stagesAfter steps ([], []))) \<inter> set (snd (stagesAfter steps ([], []))) = {}) \<and>
    (\<forall>steps d s. prefix (steps @ [d]) (driverSteps (trace st')) \<longrightarrow>
       advances (stageStatus (stagesAfter steps ([], [])) s)
         (stageStatus (stagesAfter (steps @ [d]) ([], [])) s)) \<and>
    (\<forall>earlier later. prefix earlier later \<longrightarrow>
       set (snd (stagesAfter earlier ([], []))) \<subseteq> set (snd (stagesAfter later ([], []))))"
proof (intro conjI allI impI)
  show "stagesAfter (driverSteps (trace st')) ([], []) = (inProgressStages st', completedStages st')"
    using run_steps_ok(2) [OF assms] by (simp add: stagesOf_def)
next
  fix steps
  assume "prefix steps (driverSteps (trace st'))"
  then have "stepsOk steps ([], [])"
    using stepsOk_prefix [OF run_steps_ok(1) [OF assms]] by blast
  then show "set (fst (stagesAfter steps ([], []))) \<inter> set (snd (stagesAfter steps ([], []))) = {}"
    by (rule stepsOk_disjoint)
next
  fix steps d s
  assume "prefix (steps @ [d]) (driverSteps (trace st'))"
  then show "advances (stageStatus (stagesAfter steps ([], [])) s)
         (stageStatus (stagesAfter (steps @ [d]) ([], [])) s)"
    using stepsOk_advances [OF run_steps_ok(1) [OF assms]] by blast
next
  fix earlier later :: "DriverStep list"
  assume "prefix earlier later"
  then obtain more where "later = earlier @ more"
    by (auto simp: prefix_def)
  then show "set (snd (stagesAfter earlier ([], []))) \<subseteq> set (snd (stagesAfter later ([], [])))"
    using completed_grows [of "stagesAfter earlier ([], [])" more]
    by (simp add: stagesAfter_append set_mono_prefix)
qed


theorem stage_sets_during_run_witness:
  "(case run exampleClient exampleArrivals (newState exampleObjects) of
      (out, es', st') \<Rightarrow>
        prefix ([Begin Always, Begin LoadAssets, Execute LoadAssets] @ [Complete LoadAssets])
          (driverSteps (trace st')) \<and>
        set (fst (stagesAfter [Begin Always, Begin LoadAssets, Execute LoadAssets] ([], []))) \<inter>
          set (snd (stagesAfter [Begin Always, Begin LoadAssets, Execute LoadAssets] ([], []))) = {} \<and>
        stageStatus (stagesAfter [Begin Always, Begin LoadAssets, Execute LoadAssets] ([], [])) LoadAssets
          = InProgress \<and>
        stageStatus (stagesAfter ([Begin Always, Begin LoadAssets, Execute LoadAssets] @ [Complete LoadAssets])
          ([], [])) LoadAssets = Completed \<and>
        advances InProgress Completed \<and>
        (inProgressStages st', completedStages st') =
          ([], [LoadAssets, CreateActors, SetBehaviors, CreateAnimations, SyncAnimations, Always]))"
proof -
  obtain out es' st' where r: "run exampleClient exampleArrivals (newState exampleObjects) = (out, es', st')"
    by (cases "run exampleClient exampleArrivals (newState exampleObjects)")
  have tr: "driverSteps (trace st') =
      [Begin Always,
       Begin LoadAssets, Execute LoadAssets, Complete LoadAssets, Drain,
       Begin CreateActors, Execute CreateActors, Complete CreateActors, Drain,
       Begin SetBehaviors, Execute SetBehaviors, Complete SetBehaviors, Drain,
       Begin CreateAnimations, Execute CreateAnimations, Complete CreateAnimations, Drain,
       Begin SyncAnimations, Execute SyncAnimations, Complete SyncAnimations, Drain,
       Complete Always, Drain, Resolve]"
    using example_run(2) r by (simp add: driverSteps_def)
  show ?thesis
    using stage_sets_during_run [OF r] r tr
    by (simp add: stageStatus_def advances_def)
qed

subsection \<open>The order of the driver\<close>

text \<open>
  C2, as the code has it. In every run of the driver from a new protocol object that
  resolves, the steps of the driver are, in this order: \<open>always\<close> begun; when the session
  is peer-authoritative, each of load-assets, create-actors, set-behaviors,
  create-animations and sync-animations begun, executed and completed, with a queue drain
  after each, and no stage at all when it is not; \<open>always\<close> completed; a queue drain; the
  protocol resolved. The driver hands its \<open>sync-complete\<close> payload to the router directly
  after the (only) completion of \<open>always\<close>. When the rule of \<open>sync-complete\<close> allows it
  then, the payload goes to the connection at that point, before the last queue drain, and
  between that drain and the end the driver takes no step; when moreover no message of
  the cache and no message of the application is a \<open>sync-complete\<close> message, the whole
  run sends exactly one \<open>sync-complete\<close> message.
\<close>

theorem run_resolved_order:
  assumes "run c es (newState cache) = (out, es', st')"
    and "ProtocolResolved \<in> set (trace st')"
  shows "driverSteps (trace st') =
      (if peerAuthoritative (session c)
       then [Begin Always,
             Begin LoadAssets, Execute LoadAssets, Complete LoadAssets, Drain,
             Begin CreateActors, Execute CreateActors, Complete CreateActors, Drain,
             Begin SetBehaviors, Execute SetBehaviors, Complete SetBehaviors, Drain,
             Begin CreateAnimations, Execute CreateAnimations, Complete CreateAnimations, Drain,
             Begin SyncAnimations, Execute SyncAnimations, Complete SyncAnimations, Drain,
             Complete Always, Drain, Resolve]
       else [Begin Always, Complete Always, Drain, Resolve]) \<and>
     (handlingForMessage c \<lparr>payload = SyncComplete\<rparr> st' = Allow \<longrightarrow>
        (\<exists>before k after.
           trace st' = before @ [StageCompleted Always, Sent k \<lparr>payload = SyncComplete\<rparr> None,
                                 QueueDrained] @ after @ [ProtocolResolved] \<and>
           Complete Always \<notin> set (driverSteps before) \<and> driverSteps after = []) \<and>
        (noSyncComplete (cachedMessages c @ appMessages es) \<longrightarrow>
           syncCompletesSent (trace st') = 1))"
proof -
  let ?pa = "peerAuthoritative (session c)"
  have st': "snd (snd (run c es (newState cache))) = st'"
    using assms(1) by simp
  consider (rejected) "runRejected c (newState cache) st'"
    | (suspended) "runSuspended c (newState cache) st'"
    | (resolved) "runResolved c es (newState cache) st'"
    using run_ends [of c es "newState cache"] st' by auto
  then show ?thesis
  proof cases
    case rejected
    then obtain st1 X where a: "st' = emit ProtocolRejected st1"
      "stepped (Begin Always # X) (newState cache) st1"
      "prefix X (sequenceSteps ?pa)"
      by (auto simp: runRejected_def)
    have "ProtocolResolved \<notin> set (trace st1)"
      using not_resolved [OF a(2) prefix_prefix [OF a(3)]] .
    then show ?thesis using assms(2) a(1) by (simp add: emit_def)
  next
    case suspended
    then obtain X where a: "stepped (Begin Always # X) (newState cache) st'"
      "prefix X (sequenceSteps ?pa @ [Complete Always, Drain])"
      by (auto simp: runSuspended_def)
    show ?thesis using not_resolved [OF a] assms(2) by simp
  next
    case resolved
    then obtain st1 st3 where a: "st' = emit ProtocolResolved st3"
      "stepped (Begin Always # sequenceSteps ?pa) (newState cache) st1"
      "stepped [Complete Always, Drain] st1 st3"
      by (auto simp: runResolved_def)
    have "stepped ((Begin Always # sequenceSteps ?pa) @ [Complete Always, Drain]) (newState cache) st3"
      using a(2,3) by (rule stepped_trans)
    then have d3: "driverSteps (trace st3) = Begin Always # sequenceSteps ?pa @ [Complete Always, Drain]"
      by (simp add: stepped_def newState_def driverSteps_def)
    have "driverSteps (trace st') = Begin Always # sequenceSteps ?pa @ [Complete Always, Drain, Resolve]"
      using a(1) d3 by (simp add: emit_def driverSteps_append) (simp add: driverSteps_def)
    then have steps: "driverSteps (trace st') =
      (if ?pa
       then [Begin Always,
             Begin LoadAssets, Execute LoadAssets, Complete LoadAssets, Drain,
             Begin CreateActors, Execute CreateActors, Complete CreateActors, Drain,
             Begin SetBehaviors, Execute SetBehaviors, Complete SetBehaviors, Drain,
             Begin CreateAnimations, Execute CreateAnimations, Complete CreateAnimations, Drain,
             Begin SyncAnimations, Execute SyncAnimations, Complete SyncAnimations, Drain,
             Complete Always, Drain, Resolve]
       else [Begin Always, Complete Always, Drain, Resolve])"
      using sequenceSteps_True by (simp add: sequenceSteps_def)
    have rest: "(\<exists>before k after.
           trace st' = before @ [StageCompleted Always, Sent k \<lparr>payload = SyncComplete\<rparr> None,
                                 QueueDrained] @ after @ [ProtocolResolved] \<and>
           Complete Always \<notin> set (driverSteps before) \<and> driverSteps after = []) \<and>
        (noSyncComplete (cachedMessages c @ appMessages es) \<longrightarrow>
           syncCompletesSent (trace st') = 1)"
      if allow: "handlingForMessage c \<lparr>payload = SyncComplete\<rparr> st' = Allow"
    proof -
      obtain before k after where b:
        "trace st' = before @ [StageCompleted Always, Sent k \<lparr>payload = SyncComplete\<rparr> None,
                              QueueDrained] @ after @ [ProtocolResolved]"
        "driverSteps before = Begin Always # sequenceSteps ?pa"
        "driverSteps after = []"
        "noSyncComplete (cachedMessages c @ appMessages es) \<longrightarrow>
           syncCompletesSent (trace st') = 1"
        using syncComplete_counted [OF resolved allow] by blast
      have "Complete Always \<notin> set (driverSteps before)"
        unfolding b(2) by (auto simp: sequenceSteps_def sequence_def stageSteps_def)
      then show ?thesis using b by blast
    qed
    show ?thesis using steps rest by blast
  qed
qed

theorem run_resolved_order_witness:
  "ProtocolResolved \<in> set (trace (snd (snd (run exampleClient exampleArrivals (newState exampleObjects))))) \<and>
   handlingForMessage exampleClient \<lparr>payload = SyncComplete\<rparr>
     (snd (snd (run exampleClient exampleArrivals (newState exampleObjects)))) = Allow \<and>
   noSyncComplete (cachedMessages exampleClient @ appMessages exampleArrivals) \<and>
   peerAuthoritative (session exampleClient) \<and>
   driverSteps (trace (snd (snd (run exampleClient exampleArrivals (newState exampleObjects))))) =
      [Begin Always,
       Begin LoadAssets, Execute LoadAssets, Complete LoadAssets, Drain,
       Begin CreateActors, Execute CreateActors, Complete CreateActors, Drain,
       Begin SetBehaviors, Execute SetBehaviors, Complete SetBehaviors, Drain,
       Begin CreateAnimations, Execute CreateAnimations, Complete CreateAnimations, Drain,
       Begin SyncAnimations, Execute SyncAnimations, Complete SyncAnimations, Drain,
       Complete Always, Drain, Resolve] \<and>
   syncCompletesSent (trace (snd (snd (run exampleClient exampleArrivals (newState exampleObjects))))) = 1 \<and>
   ProtocolResolved \<in> set (trace (snd (snd (run
      (exampleClient\<lparr>session := exampleSession\<lparr>peerAuthoritative := False\<rparr>\<rparr>) []
      (newState exampleObjects))))) \<and>
   \<not> peerAuthoritative (session (exampleClient\<lparr>session := exampleSession\<lparr>peerAuthoritative := False\<rparr>\<rparr>)) \<and>
   driverSteps (trace (snd (snd (run
      (exampleClient\<lparr>session := exampleSession\<lparr>peerAuthoritative := False\<rparr>\<rparr>) []
      (newState exampleObjects))))) = [Begin Always, Complete Always, Drain, Resolve]"
proof -
  let ?r = "run exampleClient exampleArrivals (newState exampleObjects)"
  let ?c = "exampleClient\<lparr>session := exampleSession\<lparr>peerAuthoritative := False\<rparr>\<rparr>"
  let ?s = "run ?c [] (newState exampleObjects)"
  have 1: "ProtocolResolved \<in> set (trace (snd (snd ?r)))"
    by (simp add: example_run(2))
  have 2: "ProtocolResolved \<in> set (trace (snd (snd ?s)))"
    by (simp add: example_run_single_authority)
  have h: "handlingForMessage exampleClient \<lparr>payload = SyncComplete\<rparr> (snd (snd ?r)) = Allow"
    by code_simp
  have n: "noSyncComplete (cachedMessages exampleClient)" "noSyncComplete (appMessages exampleArrivals)"
    by code_simp+
  have pa: "peerAuthoritative (session exampleClient)" "\<not> peerAuthoritative (session ?c)"
    by (simp_all add: exampleClient_def exampleSession_def)
  show ?thesis
    using run_resolved_order [of exampleClient exampleArrivals exampleObjects
        "fst ?r" "fst (snd ?r)" "snd (snd ?r)", OF _ 1]
      run_resolved_order [of ?c "[]" exampleObjects "fst ?s" "fst (snd ?s)" "snd (snd ?s)", OF _ 2]
      1 2 h n pa
    by simp
qed

text \<open>
  C2, as the claim has it, fails for a run in which a stage fails. Here the session is
  peer-authoritative and the reply to the cached asset fails: \<open>run\<close> rejects in the first
  stage, no stage is completed and no \<open>sync-complete\<close> payload is sent.
\<close>

theorem run_rejected_counterexample:
  "peerAuthoritative (session exampleClient) \<and>
   fst (run exampleClient [ReplyFails 0] (newState exampleObjects)) = Returned \<and>
   trace (snd (snd (run exampleClient [ReplyFails 0] (newState exampleObjects)))) =
     [StageBegun Always, StageBegun LoadAssets, StageExecuted LoadAssets,
      Sent 0 loadX (Some (ResponsePromise None)), ProtocolRejected]"
  by code_simp

text \<open>
  The two conditions on the count are needed. With a rule table that has no rule for
  \<open>sync-complete\<close> the default rule queues the payload for ever (its stage is \<open>never\<close>):
  the run resolves and has sent none. With a \<open>sync-complete\<close> message of the application
  arriving during the \<open>sync-animations\<close> stage the run resolves and has sent two.
\<close>

lemma sync_complete_conditions:
  "last (trace (snd (snd (run (exampleClient\<lparr>Rules := exampleRules(''sync-complete'' := None)\<rparr>)
      exampleArrivals (newState exampleObjects))))) = ProtocolResolved"
  "syncCompletesSent (trace (snd (snd (run (exampleClient\<lparr>Rules := exampleRules(''sync-complete'' := None)\<rparr>)
      exampleArrivals (newState exampleObjects))))) = 0"
  "last (trace (snd (snd (run exampleClient
      [ReplyArrives 0 reply, ReplyArrives 2 reply, ReplyArrives 3 reply, ReplyArrives 6 reply,
       AppSends \<lparr>payload = SyncComplete\<rparr> None, AnimationsArrive []]
      (newState exampleObjects))))) = ProtocolResolved"
  "syncCompletesSent (trace (snd (snd (run exampleClient
      [ReplyArrives 0 reply, ReplyArrives 2 reply, ReplyArrives 3 reply, ReplyArrives 6 reply,
       AppSends \<lparr>payload = SyncComplete\<rparr> None, AnimationsArrive []]
      (newState exampleObjects))))) = 2"
  by code_simp+

subsection \<open>Replies while the client is authoritative\<close>

lemma prefix_take: "prefix xs ys \<Longrightarrow> take (length xs) ys = xs"
  by (auto simp: prefix_def)




subsection \<open>The create-animations stage\<close>

text \<open>
  C10. The create-animations stage leaves the objects of the session cache as they are:
  after \<open>createActorInterpolations\<close>, and after the whole stage, the store holds at every
  address it had the object it had, with its \<open>enabled\<close> value. The payload that is sent
  with \<open>enabled\<close> false is a copy at a new address.
\<close>

theorem create_animations_keeps_cache:
  "take (length (objects st)) (objects (createActorInterpolations actor st)) = objects st \<and>
   take (length (objects st)) (objects (snd (snd (executeStage c CreateAnimations es st)))) = objects st \<and>
   objects (forwardInterpolation a st) =
     (if a < length (objects st) then objects st @ [(objects st ! a)\<lparr>enabled := False\<rparr>]
      else objects st)"
proof -
  have "prefix (objects st) (objects (createActorInterpolations actor st))"
    using withinStage_createActorInterpolations [of c st actor] by (simp add: withinStage_def)
  moreover have "prefix (objects st) (objects (snd (snd (executeStage c CreateAnimations es st))))"
    using quiet_executeStage [of CreateAnimations st c es] by (simp add: quiet_def emit_def)
  moreover have "objects (forwardInterpolation a st) =
     (if a < length (objects st) then objects st @ [(objects st ! a)\<lparr>enabled := False\<rparr>]
      else objects st)"
    by (simp add: forwardInterpolation_def Let_def Protocol_sendPayload_def Protocol_sendMessage_def
        emit_def)
  ultimately show ?thesis by (simp add: prefix_take)
qed

text \<open>
  C5 fails on the code in its last part. The stage sends the interpolation with
  \<open>enabled\<close> false and then the created animation with a reply expected, but
  \<open>Promise.all\<close> is given an array that holds the array of promises, so that nothing is
  awaited: with nothing arriving the stage returns, the reply to message 1 outstanding.
\<close>

theorem create_animations_returns_before_reply:
  "fst (executeStage exampleClient CreateAnimations [] (newState exampleObjects)) = Returned \<and>
   trace (snd (snd (executeStage exampleClient CreateAnimations [] (newState exampleObjects)))) =
     [StageExecuted CreateAnimations,
      Sent 0 \<lparr>payload = Interpolate
        \<lparr>interpolatedActorId = ''A'', animationName = ''spin'', enabled = False\<rparr>\<rparr> None,
      Sent 1 createAnimationA (Some (ResponsePromise None))] \<and>
   promises (snd (snd (executeStage exampleClient CreateAnimations [] (newState exampleObjects)))) =
     [(1, ResponsePromise None)]"
  by code_simp

subsection \<open>The router\<close>

text \<open>
  C1. For every outbound message, \<open>handlingForMessage\<close> takes the rule of the message's
  discriminant, or \<open>MissingRule\<close> when the table has none for it, and returns the rule's
  \<open>after\<close> handling if the rule's stage is complete, otherwise its \<open>during\<close> handling if
  the stage is in progress, otherwise its \<open>before\<close> handling.
\<close>

theorem handlingForMessage_by_stage:
  "(\<forall>t r. payload_type (payload m) = Some t \<and> Rules c t = Some r \<longrightarrow> ruleFor c m = r) \<and>
   ((\<forall>t. payload_type (payload m) = Some t \<longrightarrow> Rules c t = None) \<longrightarrow> ruleFor c m = MissingRule c) \<and>
   (isStageComplete st (stage (ruleFor c m)) \<longrightarrow>
      handlingForMessage c m st = after (ruleFor c m)) \<and>
   (\<not> isStageComplete st (stage (ruleFor c m)) \<and> isStageInProgress st (stage (ruleFor c m)) \<longrightarrow>
      handlingForMessage c m st = during (ruleFor c m)) \<and>
   (\<not> isStageComplete st (stage (ruleFor c m)) \<and> \<not> isStageInProgress st (stage (ruleFor c m)) \<longrightarrow>
      handlingForMessage c m st = before (ruleFor c m))"
  by (auto simp: handlingForMessage_def ruleFor_def split: option.splits)

theorem handlingForMessage_by_stage_witness:
  "payload_type (payload createA) = Some ''create-empty'' \<and>
   Rules exampleClient ''create-empty''
     = Some \<lparr>stage = CreateActors, before = Queue, during = Allow, after = Allow\<rparr> \<and>
   ruleFor exampleClient createA
     = \<lparr>stage = CreateActors, before = Queue, during = Allow, after = Allow\<rparr> \<and>
   \<not> isStageComplete (beginStage CreateActors (newState [])) CreateActors \<and>
   isStageInProgress (beginStage CreateActors (newState [])) CreateActors \<and>
   handlingForMessage exampleClient createA (beginStage CreateActors (newState [])) = Allow \<and>
   isStageComplete (completeStage CreateActors (beginStage CreateActors (newState []))) CreateActors \<and>
   handlingForMessage exampleClient createA
     (completeStage CreateActors (beginStage CreateActors (newState []))) = Allow \<and>
   \<not> isStageComplete (newState []) CreateActors \<and>
   \<not> isStageInProgress (newState []) CreateActors \<and>
   handlingForMessage exampleClient createA (newState []) = Queue \<and>
   payload_type (payload reply) = Some ''operation-result'' \<and>
   Rules exampleClient ''operation-result'' = None \<and>
   ruleFor exampleClient reply = MissingRule exampleClient"
proof -
  have r: "Rules exampleClient ''create-empty''
      = Some \<lparr>stage = CreateActors, before = Queue, during = Allow, after = Allow\<rparr>"
    and n: "Rules exampleClient ''operation-result'' = None"
    by (simp_all add: exampleClient_def exampleRules_def)
  have t: "payload_type (payload createA) = Some ''create-empty''"
    and u: "payload_type (payload reply) = Some ''operation-result''"
    by (simp_all add: createA_def reply_def)
  have stages:
    "\<not> isStageComplete (beginStage CreateActors (newState [])) CreateActors"
    "isStageInProgress (beginStage CreateActors (newState [])) CreateActors"
    "isStageComplete (completeStage CreateActors (beginStage CreateActors (newState []))) CreateActors"
    "\<not> isStageComplete (newState []) CreateActors"
    "\<not> isStageInProgress (newState []) CreateActors"
    by (simp_all add: isStageComplete_def isStageInProgress_def beginStage_def completeStage_def
        newState_def emit_def)
  show ?thesis
    using handlingForMessage_by_stage [of createA exampleClient "beginStage CreateActors (newState [])"]
      handlingForMessage_by_stage [of createA exampleClient
        "completeStage CreateActors (beginStage CreateActors (newState []))"]
      handlingForMessage_by_stage [of createA exampleClient "newState []"]
      handlingForMessage_by_stage [of reply exampleClient "newState []"]
      r n t u stages
    by simp
qed

text \<open>
  C8, as the code has it. A message whose handling is \<open>ignore\<close> is dropped: \<open>sendMessage\<close>
  changes nothing. The message is neither handed to the connection nor queued, and its
  reply continuation, if it has one, is neither resolved nor rejected nor kept.
\<close>

theorem sendMessage_ignore:
  "handlingForMessage c m st = Ignore \<Longrightarrow> sendMessage c m p st = st"
  by (simp add: sendMessage_def)

theorem sendMessage_ignore_witness:
  "handlingForMessage exampleClient \<lparr>payload = SyncAnimationsReply []\<rparr> (newState []) = Ignore \<and>
   sendMessage exampleClient \<lparr>payload = SyncAnimationsReply []\<rparr> (Some (CallerPromise 7)) (newState [])
     = newState []"
proof -
  have h: "handlingForMessage exampleClient \<lparr>payload = SyncAnimationsReply []\<rparr> (newState []) = Ignore"
    by (simp add: handlingForMessage_def ruleFor_def exampleClient_def exampleRules_def
        isStageComplete_def isStageInProgress_def newState_def)
  show ?thesis
    using h sendMessage_ignore [OF h, of "Some (CallerPromise 7)"] by simp
qed

text \<open>
  C8, as the claim has it, fails: the reply continuation of an ignored message is not
  resolved. Here the promise 7 travels with a \<open>sync-animations\<close> payload before its stage
  has begun; after \<open>sendMessage\<close> nothing has resolved it, with no value or with any.
\<close>

theorem sendMessage_ignore_counterexample:
  "handlingForMessage exampleClient \<lparr>payload = SyncAnimationsReply []\<rparr> (newState []) = Ignore \<and>
   CallerResolved 7 None \<notin> set (trace (sendMessage exampleClient \<lparr>payload = SyncAnimationsReply []\<rparr>
      (Some (CallerPromise 7)) (newState []))) \<and>
   trace (sendMessage exampleClient \<lparr>payload = SyncAnimationsReply []\<rparr>
      (Some (CallerPromise 7)) (newState [])) = []"
  by (simp add: sendMessage_def handlingForMessage_def ruleFor_def exampleClient_def
      exampleRules_def isStageComplete_def isStageInProgress_def newState_def)

subsection \<open>The queue drain\<close>

lemma filter_none_all: "filter P xs = [] \<Longrightarrow> filter (\<lambda>x. \<not> P x) xs = xs"
  by (induction xs) (auto split: if_splits)

lemma allowedNow_Protocol_sendMessage:
  "allowedNow c (Protocol_sendMessage m p st) = allowedNow c st"
  by (rule allowedNow_stages) (simp_all add: Protocol_sendMessage_def emit_def)

lemma fold_sendMessage_allowed:
  "list_all (allowedNow c st) xs \<Longrightarrow>
   fold (\<lambda>qm. sendMessage c (fst qm) (snd qm)) xs st =
   fold (\<lambda>qm. Protocol_sendMessage (fst qm) (snd qm)) xs st"
proof (induction xs arbitrary: st)
  case Nil
  show ?case by simp
next
  case (Cons x xs)
  have 1: "sendMessage c (fst x) (snd x) st = Protocol_sendMessage (fst x) (snd x) st"
    using Cons.prems by (simp add: allowedNow_def sendMessage_def)
  have "list_all (allowedNow c (Protocol_sendMessage (fst x) (snd x) st)) xs"
    unfolding allowedNow_Protocol_sendMessage using Cons.prems by simp
  from Cons.IH [OF this] show ?case
    using 1 by simp
qed

lemma queuedMessages_fold_Protocol_sendMessage:
  "queuedMessages (fold (\<lambda>qm. Protocol_sendMessage (fst qm) (snd qm)) xs st) = queuedMessages st"
  by (induction xs arbitrary: st) (simp_all add: Protocol_sendMessage_def emit_def)

lemma drainSends_sends:
  "drainSends c st =
     fold (\<lambda>qm. Protocol_sendMessage (fst qm) (snd qm)) (filter (allowedNow c st) (queuedMessages st))
       (st\<lparr>queuedMessages := filter (\<lambda>qm. \<not> allowedNow c st qm) (queuedMessages st)\<rparr>)"
proof -
  let ?st1 = "st\<lparr>queuedMessages := filter (\<lambda>qm. \<not> allowedNow c st qm) (queuedMessages st)\<rparr>"
  have "allowedNow c ?st1 = allowedNow c st"
    by (rule allowedNow_stages) simp_all
  then have "list_all (allowedNow c ?st1) (filter (allowedNow c st) (queuedMessages st))"
    by (simp add: list_all_iff)
  from fold_sendMessage_allowed [OF this] show ?thesis
    by (simp add: drainSends_def filterQueuedMessages_def)
qed

lemma sendQueuedLoop_unfold:
  shows "sendQueuedLoop c es st =
     (if filter (allowedNow c st) (queuedMessages st) = [] then (Returned, es, st)
      else await c AllReplies es (drainSends c st))"
  and "filter (allowedNow c (snd (snd (sendQueuedLoop c es st))))
         (queuedMessages (snd (snd (sendQueuedLoop c es st)))) = []"
proof -
  obtain queued st1 where f: "filterQueuedMessages (allowedNow c st) st = (queued, st1)"
    by (cases "filterQueuedMessages (allowedNow c st) st")
  have q: "queued = filter (allowedNow c st) (queuedMessages st)"
    using filterQueuedMessages_allowedNow(1) [OF f] .
  have st1: "st1 = st\<lparr>queuedMessages := filter (\<lambda>qm. \<not> allowedNow c st qm) (queuedMessages st)\<rparr>"
    using f by (auto simp: filterQueuedMessages_def)
  let ?sent = "fold (\<lambda>queuedMessage. sendMessage c (fst queuedMessage) (snd queuedMessage)) queued st1"
  have ds: "drainSends c st = ?sent"
    using f by (simp add: drainSends_def)
  have both: "sendQueuedLoop c es st =
     (if filter (allowedNow c st) (queuedMessages st) = [] then (Returned, es, st)
      else await c AllReplies es (drainSends c st)) \<and>
     filter (allowedNow c (snd (snd (sendQueuedLoop c es st))))
         (queuedMessages (snd (snd (sendQueuedLoop c es st)))) = []"
  proof (cases "queued = []")
    case True
    then have "st1 = st"
      using q st1 filter_none_all [of "allowedNow c st" "queuedMessages st"] by simp
    then show ?thesis
      using True f q by (simp add: sendQueuedLoop.simps [of c es st])
  next
    case False
    obtain out es2 st2 where a: "await c AllReplies es ?sent = (out, es2, st2)"
      by (cases "await c AllReplies es ?sent")
    have "withinStage c st1 ?sent"
      by (rule withinStage_fold) (rule withinStage_sendMessage)
    moreover have "withinStage c ?sent st2"
      using withinStage_await [of c ?sent AllReplies es] a by simp
    ultimately have "withinStage c st1 st2"
      by (rule withinStage_trans)
    then have none: "filter (allowedNow c st2) (queuedMessages st2) = []"
      using filterQueuedMessages_allowedNow(2) [OF f] by simp
    have again: "sendQueuedLoop c es2 st2 = (Returned, es2, st2)"
      using none filter_none_all [of "allowedNow c st2" "queuedMessages st2"]
      by (simp add: sendQueuedLoop.simps [of c es2 st2] filterQueuedMessages_def)
    have "sendQueuedLoop c es st = (out, es2, st2)"
      using f False a again by (cases out) (simp_all add: sendQueuedLoop.simps [of c es st])
    then show ?thesis
      using False q a ds none by simp
  qed
  from both show "sendQueuedLoop c es st =
     (if filter (allowedNow c st) (queuedMessages st) = [] then (Returned, es, st)
      else await c AllReplies es (drainSends c st))" ..
  from both show "filter (allowedNow c (snd (snd (sendQueuedLoop c es st))))
         (queuedMessages (snd (snd (sendQueuedLoop c es st)))) = []" ..
qed

lemma deliver_reply_promises:
  assumes "\<not> list_ex awaitsActor (promises st)"
  shows "promises (deliver c (ReplyArrives n r) st) = filter (\<lambda>np. fst np \<noteq> n) (promises st)"
proof (cases "map_of (promises st) n")
  case None
  then have "n \<notin> fst ` set (promises st)"
    by (simp add: map_of_eq_None_iff)
  then have "filter (\<lambda>np. fst np \<noteq> n) (promises st) = promises st"
    by (auto simp: filter_id_conv)
  then show ?thesis using None by simp
next
  case (Some p)
  show ?thesis
  proof (cases p)
    case (CallerPromise k)
    then show ?thesis using Some by (simp add: emit_def forget_def)
  next
    case (ResponsePromise awaiting)
    show ?thesis
    proof (cases awaiting)
      case None
      then show ?thesis
        using Some ResponsePromise by (simp add: emit_def forget_def responseArrived_def)
    next
      case (Some node)
      have "(n, ResponsePromise (Some node)) \<in> set (promises st)"
        using \<open>map_of (promises st) n = Some p\<close> ResponsePromise Some by (simp add: map_of_SomeD)
      then have "list_ex awaitsActor (promises st)"
        unfolding list_ex_iff by (intro bexI [of _ "(n, ResponsePromise (Some node))"]) simp_all
      then show ?thesis using assms by simp
    qed
  qed
qed

lemma await_AllReplies_returns:
  "\<not> list_ex awaitsActor (promises st) \<Longrightarrow> fst ` set (promises st) \<subseteq> set ns \<Longrightarrow>
   fst (await c AllReplies (map (\<lambda>n. ReplyArrives n r) ns @ es) st) = Returned"
proof (induction ns arbitrary: st)
  case Nil
  then have "promises st = []" by simp
  then show ?case by (cases es) simp_all
next
  case (Cons n ns)
  let ?st1 = "deliver c (ReplyArrives n r) st"
  have p: "promises ?st1 = filter (\<lambda>np. fst np \<noteq> n) (promises st)"
    using Cons.prems(1) by (rule deliver_reply_promises)
  have 1: "\<not> list_ex awaitsActor (promises ?st1)"
    using Cons.prems(1) unfolding p by (auto simp: list_ex_iff)
  have 2: "fst ` set (promises ?st1) \<subseteq> set ns"
    using Cons.prems(2) unfolding p by auto
  show ?case
    using Cons.IH [OF 1 2] by (simp del: deliver.simps)
qed

text \<open>
  C6. \<open>sendQueuedMessages\<close> is a total function: its loop ends, because a turn that
  sends something leaves no queued message that is allowed. In full: if no queued message
  is allowed now the loop returns at once. Otherwise one turn takes the allowed messages
  out of the queue and hands each of them to the connection; none of them goes back to
  the queue, which is left with exactly the messages that are not allowed, and the wait
  for the outstanding replies follows. However the call ends, no queued message is allowed
  in the state that it leaves, so a second turn takes nothing. The call returns as soon as
  the replies have arrived: if no call of \<open>createActorRecursive\<close> waits for a reply, the
  replies to the outstanding messages make it return.
\<close>

theorem sendQueuedMessages_terminates:
  "sendQueuedMessages c es st =
     (if filter (allowedNow c st) (queuedMessages st) = [] then (Returned, es, emit QueueDrained st)
      else await c AllReplies es (drainSends c (emit QueueDrained st))) \<and>
   drainSends c (emit QueueDrained st) =
     fold (\<lambda>queuedMessage. Protocol_sendMessage (fst queuedMessage) (snd queuedMessage))
       (filter (allowedNow c st) (queuedMessages st))
       ((emit QueueDrained st)
          \<lparr>queuedMessages := filter (\<lambda>queuedMessage. \<not> allowedNow c st queuedMessage) (queuedMessages st)\<rparr>) \<and>
   queuedMessages (drainSends c (emit QueueDrained st)) =
     filter (\<lambda>queuedMessage. \<not> allowedNow c st queuedMessage) (queuedMessages st) \<and>
   length (queuedMessages (drainSends c (emit QueueDrained st))) +
     length (filter (allowedNow c st) (queuedMessages st)) = length (queuedMessages st) \<and>
   filter (allowedNow c (snd (snd (sendQueuedMessages c es st))))
     (queuedMessages (snd (snd (sendQueuedMessages c es st)))) = [] \<and>
   (\<not> list_ex awaitsActor (promises (drainSends c (emit QueueDrained st))) \<longrightarrow>
      fst (sendQueuedMessages c
             (map (\<lambda>n. ReplyArrives n r) (map fst (promises (drainSends c (emit QueueDrained st)))) @ es)
             st) = Returned)"
proof -
  let ?st0 = "emit QueueDrained st"
  have same: "allowedNow c ?st0 = allowedNow c st"
    by (rule allowedNow_stages) (simp_all add: emit_def)
  have q0: "queuedMessages ?st0 = queuedMessages st"
    by (simp add: emit_def)
  have 1: "sendQueuedMessages c es' st =
     (if filter (allowedNow c st) (queuedMessages st) = [] then (Returned, es', emit QueueDrained st)
      else await c AllReplies es' (drainSends c (emit QueueDrained st)))" for es'
    unfolding sendQueuedMessages_def sendQueuedLoop_unfold(1) [of c es' ?st0] same q0 ..
  have 2: "drainSends c ?st0 =
     fold (\<lambda>queuedMessage. Protocol_sendMessage (fst queuedMessage) (snd queuedMessage))
       (filter (allowedNow c st) (queuedMessages st))
       (?st0\<lparr>queuedMessages := filter (\<lambda>queuedMessage. \<not> allowedNow c st queuedMessage) (queuedMessages st)\<rparr>)"
    unfolding drainSends_sends [of c ?st0] same q0 ..
  have 3: "queuedMessages (drainSends c ?st0) =
     filter (\<lambda>queuedMessage. \<not> allowedNow c st queuedMessage) (queuedMessages st)"
    unfolding 2 queuedMessages_fold_Protocol_sendMessage by simp
  have 4: "length (queuedMessages (drainSends c ?st0)) +
     length (filter (allowedNow c st) (queuedMessages st)) = length (queuedMessages st)"
    unfolding 3 using sum_length_filter_compl [of "allowedNow c st" "queuedMessages st"] by simp
  have 5: "filter (allowedNow c (snd (snd (sendQueuedMessages c es st))))
     (queuedMessages (snd (snd (sendQueuedMessages c es st)))) = []"
    unfolding sendQueuedMessages_def by (rule sendQueuedLoop_unfold(2))
  have 6: "fst (sendQueuedMessages c
             (map (\<lambda>n. ReplyArrives n r) (map fst (promises (drainSends c ?st0))) @ es) st) = Returned"
    if "\<not> list_ex awaitsActor (promises (drainSends c ?st0))"
    unfolding 1
    using await_AllReplies_returns [OF that, of "map fst (promises (drainSends c ?st0))" c r es]
    by simp
  show ?thesis
    using 1 [of es] 2 3 4 5 6 by blast
qed

theorem sendQueuedMessages_terminates_witness:
  "\<not> list_ex awaitsActor (promises (drainSends exampleClient (emit QueueDrained queuedState))) \<and>
   map fst (promises (drainSends exampleClient (emit QueueDrained queuedState))) = [0] \<and>
   fst (sendQueuedMessages exampleClient [ReplyArrives 0 reply] queuedState) = Returned \<and>
   queuedMessages (drainSends exampleClient (emit QueueDrained queuedState)) =
     [(\<lparr>payload = OtherPayload (Some ''actor-update'')\<rparr>, None)]"
proof -
  have h: "\<not> list_ex awaitsActor (promises (drainSends exampleClient (emit QueueDrained queuedState)))"
    by code_simp
  have e: "map fst (promises (drainSends exampleClient (emit QueueDrained queuedState))) = [0]"
    by code_simp
  have f: "filter (\<lambda>queuedMessage. \<not> allowedNow exampleClient queuedState queuedMessage)
      (queuedMessages queuedState) = [(\<lparr>payload = OtherPayload (Some ''actor-update'')\<rparr>, None)]"
    by code_simp
  have "\<not> list_ex awaitsActor (promises (drainSends exampleClient (emit QueueDrained queuedState))) \<longrightarrow>
      fst (sendQueuedMessages exampleClient
             (map (\<lambda>n. ReplyArrives n reply)
                (map fst (promises (drainSends exampleClient (emit QueueDrained queuedState)))) @ [])
             queuedState) = Returned"
    and "queuedMessages (drainSends exampleClient (emit QueueDrained queuedState)) =
      filter (\<lambda>queuedMessage. \<not> allowedNow exampleClient queuedState queuedMessage)
        (queuedMessages queuedState)"
    using sendQueuedMessages_terminates [of exampleClient "[]" queuedState reply] by blast+
  then show ?thesis
    using h e f by simp
qed


subsection \<open>The times of the animations\<close>

lemma adjustTime_eq:
  "adjustTime c a =
     a\<lparr>state := (state a)\<lparr>time :=
        js_add (js_add (time (state a)) (js_div_by (authoritativeLatencyMs (session c)) 2000))
          (js_div_by (latencyMs c) 2000)\<rparr>\<rparr>"
  by (simp add: adjustTime_def Let_def)

lemma floor_rat_numeral: "\<lfloor>numeral a / numeral b :: rat\<rfloor> = numeral a div numeral b"
  using floor_divide_of_int_eq [of "numeral a" "numeral b", where ?'a = rat] by simp

lemma ceiling_rat_numeral: "\<lceil>numeral a / numeral b :: rat\<rceil> = - (- numeral a div numeral b)"
  using floor_divide_of_int_eq [of "- numeral a" "numeral b", where ?'a = rat]
  by (simp add: ceiling_def)

lemmas js_eval = toDouble_def exponentOf_def roundHalfEven_def pow2_def Let_def compute_floorlog
  floor_rat_numeral ceiling_rat_numeral

lemma example_times:
  "js_div_by (Finite 100) 2000 = Finite (3602879701896397 / 72057594037927936)"
  "js_div_by (Finite 60) 2000 = Finite (1080863910568919 / 36028797018963968)"
  "js_add (Finite 10) (Finite (3602879701896397 / 72057594037927936))
     = Finite (2828823515942093 / 281474976710656)"
  "js_add (Finite (2828823515942093 / 281474976710656)) (Finite (1080863910568919 / 36028797018963968))
     = Finite (5674535530486825 / 562949953421312)"
  "toDouble (10080 / 1000) = Finite (5674535530486825 / 562949953421312)"
  by (simp_all add: js_eval)

text \<open>
  C4. When the answer of the authoritative client to the \<open>sync-animations\<close> request
  arrives, the stage returns, and what it sends to the joining client is the answer with,
  for every animation state in it and in the same order, the time
  \<open>(time + authoritativeLatencyMs / 2000) + latencyMs / 2000\<close>, in the arithmetic of the
  code's numbers (each operation rounds to a double) and nothing else changed. With the
  latencies 100 and 60 and the time 10 the time sent is the double \<open>10.08\<close>.
\<close>

theorem animation_times_adjusted:
  assumes "authoritativeOrder (session c) \<noteq> order c"
  shows "fst (stage_sync_animations c (AnimationsArrive animationStates # es) st) = Returned \<and>
    trace (snd (snd (stage_sync_animations c (AnimationsArrive animationStates # es) st))) =
      trace st @
      [AuthoritativeSent SyncAnimationsRequest,
       Sent (nextId st)
         \<lparr>payload = SyncAnimationsReply
            (map (\<lambda>animationState. animationState\<lparr>state := (state animationState)\<lparr>time :=
                     js_add (js_add (time (state animationState))
                               (js_div_by (authoritativeLatencyMs (session c)) 2000))
                       (js_div_by (latencyMs c) 2000)\<rparr>\<rparr>)
               animationStates)\<rparr>
         None]"
proof -
  have a: "adjustTime c = (\<lambda>animationState. animationState\<lparr>state := (state animationState)\<lparr>time :=
                     js_add (js_add (time (state animationState))
                               (js_div_by (authoritativeLatencyMs (session c)) 2000))
                       (js_div_by (latencyMs c) 2000)\<rparr>\<rparr>)"
    by (rule ext) (rule adjustTime_eq)
  show ?thesis
    using assms unfolding a [symmetric]
    by (cases es)
      (simp_all add: stage_sync_animations_def animationsArrived_def Protocol_sendPayload_def
        Protocol_sendMessage_def emit_def)
qed

theorem animation_times_adjusted_witness:
  "authoritativeOrder (session exampleClient) \<noteq> order exampleClient \<and>
   authoritativeLatencyMs (session exampleClient) = Finite 100 \<and>
   latencyMs exampleClient = Finite 60 \<and>
   trace (snd (snd (stage_sync_animations exampleClient
      [AnimationsArrive [\<lparr>animationId = ''spin'', state = \<lparr>time = Finite 10\<rparr>\<rparr>]] (newState [])))) =
     [AuthoritativeSent SyncAnimationsRequest,
      Sent 0 \<lparr>payload = SyncAnimationsReply
                [\<lparr>animationId = ''spin'', state = \<lparr>time = Finite (5674535530486825 / 562949953421312)\<rparr>\<rparr>]\<rparr>
        None] \<and>
   toDouble (10080 / 1000) = Finite (5674535530486825 / 562949953421312)"
proof -
  have o: "authoritativeOrder (session exampleClient) \<noteq> order exampleClient"
    by (simp add: exampleClient_def exampleSession_def)
  have l: "authoritativeLatencyMs (session exampleClient) = Finite 100"
    "latencyMs exampleClient = Finite 60"
    by (simp_all add: exampleClient_def exampleSession_def)
  have t: "trace (snd (snd (stage_sync_animations exampleClient
      [AnimationsArrive [\<lparr>animationId = ''spin'', state = \<lparr>time = Finite 10\<rparr>\<rparr>]] (newState [])))) =
     [AuthoritativeSent SyncAnimationsRequest,
      Sent 0 \<lparr>payload = SyncAnimationsReply
                [\<lparr>animationId = ''spin'', state = \<lparr>time = Finite (5674535530486825 / 562949953421312)\<rparr>\<rparr>]\<rparr>
        None]"
    using animation_times_adjusted [OF o,
        of "[\<lparr>animationId = ''spin'', state = \<lparr>time = Finite 10\<rparr>\<rparr>]" "[]" "newState []"]
      l
    by (simp add: newState_def example_times del: js_div_by.simps js_add.simps)
  show ?thesis
    by (intro conjI o l t example_times(5))
qed

end
